theory Spec2Isabelle
  imports Main "HOL-Library.AList" "HOL-Library.Code_Target_Numeral"
begin

section \<open>CardForge front-end store: documents, paths, snapshots and history\<close>

text \<open>
  The development follows \<^verbatim>\<open>store.js\<close> (utility functions \<^verbatim>\<open>deepClone\<close>,
  \<^verbatim>\<open>deepEqual\<close>, \<^verbatim>\<open>getByPath\<close>, \<^verbatim>\<open>setByPath\<close>, the card store and the history
  store) and \<^verbatim>\<open>undo_redo.js\<close> (the second history store).

  Both files are ES modules, hence strict-mode code: an assignment to a property of a
  primitive raises \<^verbatim>\<open>TypeError\<close> instead of being dropped.
\<close>

subsection \<open>JavaScript values\<close>

text \<open>
  A value is a primitive, an ordinary object, or an array. An ordinary object is its list
  of own properties. An array is an exotic object: its \<^verbatim>\<open>length\<close> and its own properties,
  where the elements are the properties whose key is a canonical array index (a missing
  index below the length is a hole) and any other key is a named property, which
  JavaScript allows on arrays. So \<^verbatim>\<open>["x", "y"]\<close> is
  \<open>Arr 2 [(''0'', Str ''x''), (''1'', Str ''y'')]\<close>.

  An object made by \<^verbatim>\<open>{}\<close>, by \<^verbatim>\<open>JSON.parse\<close> or by \<^verbatim>\<open>structuredClone\<close> has the prototype
  \<^verbatim>\<open>Object.prototype\<close>: that is \<open>Obj\<close>. An assignment to \<^verbatim>\<open>__proto__\<close> can give it
  another prototype, or none: that is \<open>Reparented\<close>, an object of which the own
  properties are known and the inherited ones are not.

  Limits of the model, all of them on the side of the platform and not of the
  repository's code:
  \<^item> numbers are integers (no claim depends on arithmetic; \<^verbatim>\<open>NaN\<close> is not a JSON number);
  \<^item> a string is a list of characters, each standing for one code unit;
  \<^item> the prototypes of the platform are as ECMAScript with its Annex B (which is
    normative for browsers) defines them: they hold methods, the property
    \<^verbatim>\<open>constructor\<close> and the accessor \<^verbatim>\<open>__proto__\<close>, all of them writable or with a
    setter, and no script has added to them. Which methods there are is a parameter
    (\<open>platform\<close> below);
  \<^item> the objects and arrays of a value are extensible and their properties are writable
    data properties: none is frozen or sealed, none has a getter or a setter of its own;
  \<^item> a value is a tree: that two of its parts may be one and the same object is not
    recorded here (the section on the heap records it);
  \<^item> the order of the property list is the order of insertion; no function of the
    repository modelled here depends on the order in which keys are enumerated.
\<close>

datatype jsval =
    Undefined
  | Null
  | Bool bool
  | Num int
  | Str string
  | Arr nat "(string \<times> jsval) list"
  | Obj "(string \<times> jsval) list"
  | Reparented "(string \<times> jsval) list"

text \<open>
  How an operation of the platform can fail to give a value. \<open>Unmodelled\<close> is not an
  exception of the program: it marks a step whose effect lies in a part of the platform
  that this model does not describe, and about a call that meets one the model says
  nothing.
\<close>

datatype error =
    TypeError
  | RangeError
  | Unmodelled
    \<comment> \<open>an array's \<^verbatim>\<open>length\<close> is assigned a value whose conversion to a number is not
       described; a property of a built-in object of the platform is read or assigned, or
       an inherited one of an object whose prototype was replaced\<close>

fun typeof :: "jsval \<Rightarrow> string" where
  "typeof Undefined = ''undefined''"
| "typeof Null = ''object''"
| "typeof (Bool b) = ''boolean''"
| "typeof (Num n) = ''number''"
| "typeof (Str s) = ''string''"
| "typeof (Arr n ps) = ''object''"
| "typeof (Obj ps) = ''object''"
| "typeof (Reparented ps) = ''object''"

fun isArray :: "jsval \<Rightarrow> bool" where
  "isArray (Arr n ps) = True"
| "isArray v = False"

definition is_digit :: "char \<Rightarrow> bool" where
  "is_digit c = (c \<in> set ''0123456789'')"

definition digit_val :: "char \<Rightarrow> nat" where
  "digit_val c = of_char c - 48"

definition dec_val :: "string \<Rightarrow> nat" where
  "dec_val s = foldl (\<lambda>n c. 10 * n + digit_val c) 0 s"

text \<open>
  \<^verbatim>\<open>/^\d+$/.test(s)\<close>: one or more ASCII digits and nothing else.
\<close>

definition all_digits :: "string \<Rightarrow> bool" where
  "all_digits s = (s \<noteq> [] \<and> list_all is_digit s)"

text \<open>
  A property key is an array index when it is the canonical decimal form (no leading zero)
  of an integer below \<open>2^32 - 1\<close>.
\<close>

definition array_index :: "string \<Rightarrow> nat option" where
  "array_index s =
     (if all_digits s \<and> (s = ''0'' \<or> hd s \<noteq> CHR ''0'') \<and> dec_val s < 2 ^ 32 - 1
      then Some (dec_val s) else None)"

subsection \<open>Own properties\<close>

definition lookup :: "(string \<times> jsval) list \<Rightarrow> string \<Rightarrow> jsval" where
  "lookup ps k = (case map_of ps k of None \<Rightarrow> Undefined | Some v \<Rightarrow> v)"

text \<open>
  \<^verbatim>\<open>Object.prototype.hasOwnProperty.call(v, key)\<close> for a value that is neither \<^verbatim>\<open>null\<close>
  nor \<^verbatim>\<open>undefined\<close>: a string has its characters and its length, an array its length and
  its own properties.
\<close>

fun has_own :: "jsval \<Rightarrow> string \<Rightarrow> bool" where
  "has_own (Obj ps) k = (k \<in> set (map fst ps))"
| "has_own (Reparented ps) k = (k \<in> set (map fst ps))"
| "has_own (Arr n ps) k = (k = ''length'' \<or> k \<in> set (map fst ps))"
| "has_own (Str s) k =
     (k = ''length'' \<or> (case array_index k of Some i \<Rightarrow> i < length s | None \<Rightarrow> False))"
| "has_own v k = False"

text \<open>
  \<^verbatim>\<open>v[key]\<close> where \<open>key\<close> is an own property of \<open>v\<close>, as it is for the keys that
  \<^verbatim>\<open>Object.keys\<close>, \<^verbatim>\<open>for ... in\<close> with \<^verbatim>\<open>hasOwnProperty\<close>, and \<^verbatim>\<open>map\<close> hand to
  \<^verbatim>\<open>deepEqual\<close> and \<^verbatim>\<open>deepClone\<close>. (For any other key it is \<^verbatim>\<open>undefined\<close> here; the
  read of an arbitrary key is \<open>js_get\<close> below.)
\<close>

fun own_prop :: "jsval \<Rightarrow> string \<Rightarrow> jsval" where
  "own_prop (Obj ps) k = lookup ps k"
| "own_prop (Reparented ps) k = lookup ps k"
| "own_prop (Arr n ps) k = (if k = ''length'' then Num (int n) else lookup ps k)"
| "own_prop (Str s) k =
     (if k = ''length'' then Num (int (length s))
      else (case array_index k of
              Some i \<Rightarrow> if i < length s then Str [s ! i] else Undefined
            | None \<Rightarrow> Undefined))"
| "own_prop v k = Undefined"

subsection \<open>Inherited properties\<close>

text \<open>
  A value that is not \<^verbatim>\<open>null\<close> or \<^verbatim>\<open>undefined\<close> inherits from the prototype of its kind
  and, through it, from \<^verbatim>\<open>Object.prototype\<close>. The platform is described by the names of
  the methods that each kind of value inherits that way (\<^verbatim>\<open>toString\<close>, \<^verbatim>\<open>push\<close>, ...):
  \<open>pf kind k\<close> says that a value of the kind inherits a method named \<open>k\<close>. Besides its
  methods every value inherits \<^verbatim>\<open>constructor\<close>, a function, and the accessor \<^verbatim>\<open>__proto__\<close>,
  whose getter returns the prototype and whose setter replaces it.
\<close>

datatype kind = OfObject | OfArray | OfString | OfNumber | OfBoolean

type_synonym platform = "kind \<Rightarrow> string \<Rightarrow> bool"

text \<open>
  What a property read can reach: a value of the document, or one of the platform's
  built-in objects, which is a method (named here by the key it was found under), the
  constructor of a kind (\<^verbatim>\<open>Object\<close>, \<^verbatim>\<open>Array\<close>, ...) or the prototype object of a kind.
\<close>

datatype reached =
    Val jsval
  | Fn string
  | Constructor kind
  | Proto kind

fun typeof_r :: "reached \<Rightarrow> string" where
  "typeof_r (Val v) = typeof v"
| "typeof_r (Fn f) = ''function''"
| "typeof_r (Constructor kd) = ''function''"
| "typeof_r (Proto kd) = ''object''"

definition member :: "platform \<Rightarrow> kind \<Rightarrow> string \<Rightarrow> reached" where
  "member pf kd k =
     (if k = ''__proto__'' then Proto kd
      else if k = ''constructor'' then Constructor kd
      else if pf kd k then Fn k
      else Val Undefined)"

text \<open>
  \<^verbatim>\<open>v[key]\<close>: the own property if there is one, else the inherited one, else
  \<^verbatim>\<open>undefined\<close>. Reading a property of \<^verbatim>\<open>null\<close> or \<^verbatim>\<open>undefined\<close> throws.
\<close>

fun inherited :: "platform \<Rightarrow> jsval \<Rightarrow> string \<Rightarrow> error + reached" where
  "inherited pf Undefined k = Inl TypeError"
| "inherited pf Null k = Inl TypeError"
| "inherited pf (Bool b) k = Inr (member pf OfBoolean k)"
| "inherited pf (Num n) k = Inr (member pf OfNumber k)"
| "inherited pf (Str s) k = Inr (member pf OfString k)"
| "inherited pf (Arr n ps) k = Inr (member pf OfArray k)"
| "inherited pf (Obj ps) k = Inr (member pf OfObject k)"
| "inherited pf (Reparented ps) k = Inl Unmodelled"

definition js_get :: "platform \<Rightarrow> jsval \<Rightarrow> string \<Rightarrow> error + reached" where
  "js_get pf v k = (if has_own v k then Inr (Val (own_prop v k)) else inherited pf v k)"

text \<open>
  \<^verbatim>\<open>r[key]\<close> for whatever a walk has reached. A built-in function has no own property
  \<^verbatim>\<open>caller\<close> or \<^verbatim>\<open>arguments\<close> and inherits the accessors of \<^verbatim>\<open>Function.prototype\<close>, whose
  getter throws \<^verbatim>\<open>TypeError\<close>. A constructor has its \<^verbatim>\<open>name\<close>. The other properties of
  the built-in objects are not described.
\<close>

fun constructor_name :: "kind \<Rightarrow> string" where
  "constructor_name OfObject = ''Object''"
| "constructor_name OfArray = ''Array''"
| "constructor_name OfString = ''String''"
| "constructor_name OfNumber = ''Number''"
| "constructor_name OfBoolean = ''Boolean''"

fun read :: "platform \<Rightarrow> reached \<Rightarrow> string \<Rightarrow> error + reached" where
  "read pf (Val v) k = js_get pf v k"
| "read pf (Fn f) k =
     (if k = ''caller'' \<or> k = ''arguments'' then Inl TypeError else Inl Unmodelled)"
| "read pf (Constructor kd) k =
     (if k = ''caller'' \<or> k = ''arguments'' then Inl TypeError
      else if k = ''name'' then Inr (Val (Str (constructor_name kd)))
      else Inl Unmodelled)"
| "read pf (Proto kd) k = Inl Unmodelled"

text \<open>
  The length that an assignment \<^verbatim>\<open>a.length = x\<close> gives an array: \<open>x\<close> is converted with
  ToNumber, and the result must be an integer from 0 to \<open>2^32 - 1\<close>, else \<^verbatim>\<open>RangeError\<close>
  is thrown. \<^verbatim>\<open>undefined\<close> converts to \<^verbatim>\<open>NaN\<close>, \<^verbatim>\<open>null\<close> and the empty string to 0, a
  boolean to 0 or 1, and a string of decimal digits to the number it writes. An object or
  array is first converted to a string by the methods \<^verbatim>\<open>valueOf\<close>, \<^verbatim>\<open>toString\<close> and
  \<^verbatim>\<open>join\<close> that it inherits: an array without elements gives the empty string, hence 0,
  and an object gives \<^verbatim>\<open>"[object Object]"\<close>, hence \<^verbatim>\<open>NaN\<close>. The conversion of any other
  string is the parsing of a floating-point literal, and that of an array with elements
  or of an object with a property of its own under one of these three names depends on
  more of the platform: these are not described.
\<close>

definition converts_as_inherited :: "(string \<times> jsval) list \<Rightarrow> bool" where
  "converts_as_inherited ps =
     (''valueOf'' \<notin> set (map fst ps) \<and> ''toString'' \<notin> set (map fst ps) \<and>
      ''join'' \<notin> set (map fst ps))"

fun to_length :: "jsval \<Rightarrow> error + nat" where
  "to_length (Num m) = (if 0 \<le> m \<and> m < 2 ^ 32 then Inr (nat m) else Inl RangeError)"
| "to_length Undefined = Inl RangeError"
| "to_length Null = Inr 0"
| "to_length (Bool b) = Inr (if b then 1 else 0)"
| "to_length (Str s) =
     (if s = [] then Inr 0
      else if list_all is_digit s then
        (if dec_val s < 2 ^ 32 then Inr (dec_val s) else Inl RangeError)
      else Inl Unmodelled)"
| "to_length (Arr n ps) = (if n = 0 \<and> converts_as_inherited ps then Inr 0 else Inl Unmodelled)"
| "to_length (Obj ps) = (if converts_as_inherited ps then Inl RangeError else Inl Unmodelled)"
| "to_length (Reparented ps) = Inl Unmodelled"

text \<open>
  \<^verbatim>\<open>v[key] = x\<close>. An own property is updated in place. A key that is not an own property
  is added as one, since an inherited method is writable and does not stand in the way;
  on an array, an index at or beyond the length extends the array, and assigning the
  length truncates or extends it. The one accessor among the inherited properties is
  \<^verbatim>\<open>__proto__\<close>: where it is not an own property the assignment runs its setter, which
  adds no property; it replaces the prototype of an object when \<open>x\<close> is an object or
  \<^verbatim>\<open>null\<close>, and does nothing otherwise. On \<^verbatim>\<open>null\<close> and \<^verbatim>\<open>undefined\<close> an assignment throws,
  and so it does on a primitive in strict mode, unless it ends in that setter.
\<close>

definition keeps :: "nat \<Rightarrow> string \<times> jsval \<Rightarrow> bool" where
  "keeps m p = (case array_index (fst p) of Some i \<Rightarrow> i < m | None \<Rightarrow> True)"

definition runs_setter :: "jsval \<Rightarrow> string \<Rightarrow> bool" where
  "runs_setter v k = (k = ''__proto__'' \<and> \<not> has_own v k)"

fun js_set :: "jsval \<Rightarrow> string \<Rightarrow> jsval \<Rightarrow> error + jsval" where
  "js_set Undefined k x = Inl TypeError"
| "js_set Null k x = Inl TypeError"
| "js_set (Obj ps) k x =
     (if runs_setter (Obj ps) k then
        (if typeof x = ''object'' then Inr (Reparented ps) else Inr (Obj ps))
      else Inr (Obj (AList.update k x ps)))"
| "js_set (Reparented ps) k x =
     (if runs_setter (Reparented ps) k then Inl Unmodelled
      else Inr (Reparented (AList.update k x ps)))"
| "js_set (Arr n ps) k x =
     (if k = ''length'' then
        (case to_length x of
           Inl e \<Rightarrow> Inl e
         | Inr m \<Rightarrow> Inr (Arr m (filter (keeps m) ps)))
      else if runs_setter (Arr n ps) k then
        (if typeof x = ''object'' then Inl Unmodelled else Inr (Arr n ps))
      else (case array_index k of
              Some i \<Rightarrow> Inr (Arr (max n (Suc i)) (AList.update k x ps))
            | None \<Rightarrow> Inr (Arr n (AList.update k x ps))))"
| "js_set v k x = (if k = ''__proto__'' then Inr v else Inl TypeError)"

subsection \<open>Paths\<close>

text \<open>
  \<^verbatim>\<open>path.replace(/\[(\d+)\]/g, '.$1')\<close>: every \<^verbatim>\<open>[\<close>, one or more digits, \<^verbatim>\<open>]\<close> becomes a dot
  and the digits; matches are taken from the left and do not overlap.
\<close>

function replace_brackets :: "string \<Rightarrow> string" where
  "replace_brackets [] = []"
| "replace_brackets (c # cs) =
     (let ds = takeWhile is_digit cs; rest = dropWhile is_digit cs in
      if c = CHR ''['' \<and> ds \<noteq> [] \<and> rest \<noteq> [] \<and> hd rest = CHR '']''
      then CHR ''.'' # ds @ replace_brackets (tl rest)
      else c # replace_brackets cs)"
  by pat_completeness auto
termination
proof (relation "measure length")
  show "wf (measure length)" by simp
next
  fix c :: char and cs ds rest :: string
  assume r: "rest = dropWhile is_digit cs"
  have "length rest \<le> length cs"
    unfolding r by (rule length_dropWhile_le)
  then have "length (tl rest) < length (c # cs)" by simp
  then show "(tl rest, c # cs) \<in> measure length" by simp
next
  fix c :: char and cs :: string
  show "(cs, c # cs) \<in> measure length" by simp
qed

text \<open>\<^verbatim>\<open>s.split('.')\<close>: the pieces between the dots, empty pieces included.\<close>

fun split_dot :: "string \<Rightarrow> string list" where
  "split_dot [] = [[]]"
| "split_dot (c # cs) =
     (if c = CHR ''.'' then [] # split_dot cs
      else (case split_dot cs of w # ws \<Rightarrow> (c # w) # ws | [] \<Rightarrow> [[c]]))"

definition path_keys :: "string \<Rightarrow> string list" where
  "path_keys path = split_dot (replace_brackets path)"

text \<open>\<^verbatim>\<open>keys.join('.')\<close>\<close>

fun join_dot :: "string list \<Rightarrow> string" where
  "join_dot [] = []"
| "join_dot [k] = k"
| "join_dot (k # ks) = k @ ''.'' @ join_dot ks"

subsection \<open>getByPath\<close>

text \<open>
  The loop of \<^verbatim>\<open>getByPath\<close> over the remaining keys, \<open>current\<close> being what the walk has
  reached.
\<close>

fun get_loop :: "platform \<Rightarrow> reached \<Rightarrow> string list \<Rightarrow> error + reached" where
  "get_loop pf current [] = Inr current"
| "get_loop pf current (key # keys) =
     (if current = Val Null \<or> current = Val Undefined then Inr (Val Undefined)
      else (case read pf current key of
              Inl e \<Rightarrow> Inl e
            | Inr c \<Rightarrow> get_loop pf c keys))"

definition getByPath :: "platform \<Rightarrow> jsval \<Rightarrow> string \<Rightarrow> error + reached" where
  "getByPath pf obj path = get_loop pf (Val obj) (path_keys path)"

subsection \<open>setByPath\<close>

text \<open>
  \<^verbatim>\<open>setByPath\<close> walks down the document and assigns in place. Here a document is a
  value, so each level returns its updated container and the level above stores it back
  under the key it was read from (\<open>put_child\<close>); this is what the write through the
  alias \<^verbatim>\<open>current = current[key]\<close> does to the document. The result is the document
  after the call and the diagnostics written with \<^verbatim>\<open>console.warn\<close>, or the exception.
\<close>

text \<open>\<^verbatim>\<open>/^\d+$/.test(nextKey) ? [] : {}\<close>\<close>

definition fresh :: "string \<Rightarrow> jsval" where
  "fresh nextKey = (if all_digits nextKey then Arr 0 [] else Obj [])"

fun put_child :: "jsval \<Rightarrow> string \<Rightarrow> jsval \<Rightarrow> jsval" where
  "put_child (Obj ps) k c = Obj (AList.update k c ps)"
| "put_child (Reparented ps) k c = Reparented (AList.update k c ps)"
| "put_child (Arr n ps) k c = Arr n (AList.update k c ps)"
| "put_child v k c = v"

definition warn_cannot_traverse :: "string list \<Rightarrow> string" where
  "warn_cannot_traverse ks = ''[store] Cannot traverse path at '' @ join_dot ks"

definition warn_overwriting :: "string list \<Rightarrow> string" where
  "warn_overwriting ks = ''[store] Overwriting primitive value at '' @ join_dot ks"

definition warn_not_exist :: "string list \<Rightarrow> string" where
  "warn_not_exist ks = ''[store] Path does not exist: '' @ join_dot ks"

text \<open>
  What one of the two \<^verbatim>\<open>if\<close> statements of the loop body does: it throws, it returns
  from \<^verbatim>\<open>setByPath\<close> (the container as it is, and the diagnostic), or it goes on
  (the container, perhaps assigned to, and the diagnostic if any).
\<close>

datatype outcome =
    Throws error
  | Returns jsval "string list"
  | Goes jsval "string list"

text \<open>
  The first \<^verbatim>\<open>if\<close>: \<^verbatim>\<open>current[key]\<close> is there but is not an object. \<open>pre\<close> holds the
  keys before \<open>key\<close>, so that \<open>pre @ [key]\<close> is \<^verbatim>\<open>keys.slice(0, i + 1)\<close>.
\<close>

definition check_primitive ::
  "platform \<Rightarrow> bool \<Rightarrow> string list \<Rightarrow> jsval \<Rightarrow> string \<Rightarrow> string \<Rightarrow> outcome" where
  "check_primitive pf autoCreate pre current key nextKey =
     (case js_get pf current key of
        Inl e \<Rightarrow> Throws e
      | Inr c \<Rightarrow>
          if c \<noteq> Val Undefined \<and> c \<noteq> Val Null \<and> typeof_r c \<noteq> ''object'' then
            if \<not> autoCreate then Returns current [warn_cannot_traverse (pre @ [key])]
            else (case js_set current key (fresh nextKey) of
                    Inl e \<Rightarrow> Throws e
                  | Inr current' \<Rightarrow> Goes current' [warn_overwriting (pre @ [key])])
          else Goes current [])"

text \<open>The second \<^verbatim>\<open>if\<close>: \<^verbatim>\<open>current[key]\<close> is \<^verbatim>\<open>undefined\<close> or \<^verbatim>\<open>null\<close>.\<close>

definition check_missing ::
  "platform \<Rightarrow> bool \<Rightarrow> string list \<Rightarrow> jsval \<Rightarrow> string \<Rightarrow> string \<Rightarrow> outcome" where
  "check_missing pf autoCreate pre current key nextKey =
     (case js_get pf current key of
        Inl e \<Rightarrow> Throws e
      | Inr c \<Rightarrow>
          if c = Val Undefined \<or> c = Val Null then
            if \<not> autoCreate then Returns current [warn_not_exist (pre @ [key])]
            else (case js_set current key (fresh nextKey) of
                    Inl e \<Rightarrow> Throws e
                  | Inr current' \<Rightarrow> Goes current' [])
          else Goes current [])"

text \<open>
  The loop and the final assignment. \<open>key\<close> is \<^verbatim>\<open>keys[i]\<close> and \<open>rest\<close> the keys after
  it; with no key after it, \<open>key\<close> is the last one and is assigned. After the two tests
  \<^verbatim>\<open>current = current[key]\<close> is an object: either one of the document, and the loop goes on
  in it, or a prototype object of the platform, which the rest of the call would read and
  assign to.
\<close>

fun set_loop ::
  "platform \<Rightarrow> bool \<Rightarrow> string list \<Rightarrow> jsval \<Rightarrow> string \<Rightarrow> string list \<Rightarrow> jsval
     \<Rightarrow> error + (jsval \<times> string list)" where
  "set_loop pf autoCreate pre current key [] v =
     (case js_set current key v of Inl e \<Rightarrow> Inl e | Inr c \<Rightarrow> Inr (c, []))"
| "set_loop pf autoCreate pre current key (nextKey # rest) v =
     (case check_primitive pf autoCreate pre current key nextKey of
        Throws e \<Rightarrow> Inl e
      | Returns c w \<Rightarrow> Inr (c, w)
      | Goes c1 w1 \<Rightarrow>
          (case check_missing pf autoCreate pre c1 key nextKey of
             Throws e \<Rightarrow> Inl e
           | Returns c w \<Rightarrow> Inr (c, w1 @ w)
           | Goes c2 w2 \<Rightarrow>
               (case js_get pf c2 key of
                  Inl e \<Rightarrow> Inl e
                | Inr (Val next) \<Rightarrow>
                    (case set_loop pf autoCreate (pre @ [key]) next nextKey rest v of
                       Inl e \<Rightarrow> Inl e
                     | Inr (child, w3) \<Rightarrow> Inr (put_child c2 key child, w1 @ w2 @ w3))
                | Inr r \<Rightarrow> Inl Unmodelled)))"

text \<open>\<^verbatim>\<open>split\<close> never returns an empty list; \<open>hd\<close> and \<open>tl\<close> take it apart.\<close>

definition setByPath ::
  "platform \<Rightarrow> jsval \<Rightarrow> string \<Rightarrow> jsval \<Rightarrow> bool \<Rightarrow> error + (jsval \<times> string list)" where
  "setByPath pf obj path v autoCreate =
     set_loop pf autoCreate [] obj (hd (path_keys path)) (tl (path_keys path)) v"

subsection \<open>deepEqual and deepClone on documents\<close>

text \<open>\<^verbatim>\<open>Object.keys(v)\<close>: the own enumerable keys; an array's length is not one of them.\<close>

fun keys :: "jsval \<Rightarrow> string list" where
  "keys (Obj ps) = map fst ps"
| "keys (Reparented ps) = map fst ps"
| "keys (Arr n ps) = map fst ps"
| "keys v = []"

text \<open>
  \<^verbatim>\<open>a === b\<close>. Primitives are compared by value. Two objects are strictly equal only when
  they are one and the same object, which a value does not record: they are taken to be
  two objects here, and \<^verbatim>\<open>deepEqual\<close> then compares their properties. For one and the
  same object that comparison gives \<^verbatim>\<open>true\<close> as well (lemma \<open>deepEqual_refl\<close> below),
  which is what the shortcut returns. Section \<open>Snapshots in the heap\<close> has the
  functions on references, where identity is kept.
\<close>

fun strict_eq :: "jsval \<Rightarrow> jsval \<Rightarrow> bool" where
  "strict_eq (Arr n ps) b = False"
| "strict_eq (Obj ps) b = False"
| "strict_eq (Reparented ps) b = False"
| "strict_eq a b = (a = b)"

text \<open>
  \<^verbatim>\<open>deepEqual\<close> reads \<^verbatim>\<open>a[key]\<close> for the keys of \<^verbatim>\<open>Object.keys(a)\<close>, and \<^verbatim>\<open>b[key]\<close> only
  after \<^verbatim>\<open>keysB.includes(key)\<close>: both are own properties.
\<close>

function deepEqual :: "jsval \<Rightarrow> jsval \<Rightarrow> bool" where
  "deepEqual a b =
     (if strict_eq a b then True
      else if a = Null \<or> b = Null then strict_eq a b
      else if typeof a \<noteq> ''object'' \<or> typeof b \<noteq> ''object'' then False
      else if isArray a \<noteq> isArray b then False
      else if length (keys a) \<noteq> length (keys b) then False
      else list_all (\<lambda>key. key \<in> set (keys b) \<and> deepEqual (own_prop a key) (own_prop b key))
             (keys a))"
  by pat_completeness auto
termination
proof (relation "measure (\<lambda>(a, b). size a)")
  show "wf (measure (\<lambda>(a, b). size a))" by simp
next
  fix a b :: jsval and key :: string
  assume key: "key \<in> set (keys a)"
  have member: "size (snd p) < Suc (size_list (size_prod (\<lambda>_. 0) size) ps)"
    if "p \<in> set ps" for p :: "string \<times> jsval" and ps
    using that by (induction ps) auto
  have "size (lookup ps k) < Suc (size_list (size_prod (\<lambda>_. 0) size) ps)"
    if "k \<in> set (map fst ps)" for ps k
  proof -
    from that obtain v where "map_of ps k = Some v"
      by (metis map_of_eq_None_iff not_Some_eq set_map)
    then have "lookup ps k = snd (k, v)" and "(k, v) \<in> set ps"
      by (simp_all add: lookup_def map_of_SomeD)
    then show ?thesis using member by metis
  qed
  with key have "size (own_prop a key) < size a"
    by (cases a) (auto simp del: set_map)
  then show "((own_prop a key, own_prop b key), (a, b)) \<in> measure (\<lambda>(a, b). size a)"
    by simp
qed

text \<open>
  The platform's \<^verbatim>\<open>structuredClone\<close>, where it returns: a copy with the same own
  properties (holes and named properties of arrays included, and a property named
  \<^verbatim>\<open>__proto__\<close> like any other), every object of it with the prototype
  \<^verbatim>\<open>Object.prototype\<close>.
\<close>

function structuredClone :: "jsval \<Rightarrow> jsval" where
  "structuredClone obj =
     (case obj of
        Arr n ps \<Rightarrow> Arr n (map (\<lambda>p. (fst p, structuredClone (snd p))) ps)
      | Obj ps \<Rightarrow> Obj (map (\<lambda>p. (fst p, structuredClone (snd p))) ps)
      | Reparented ps \<Rightarrow> Obj (map (\<lambda>p. (fst p, structuredClone (snd p))) ps)
      | _ \<Rightarrow> obj)"
  by pat_completeness auto
termination
proof (relation "measure size")
  show "wf (measure size)" by simp
next
  fix obj :: jsval and n ps and p :: "string \<times> jsval"
  assume "obj = Arr n ps" and "p \<in> set ps"
  then have "size (snd p) < size obj" by (induction ps arbitrary: obj) auto
  then show "(snd p, obj) \<in> measure size" by simp
next
  fix obj :: jsval and ps and p :: "string \<times> jsval"
  assume "obj = Obj ps" and "p \<in> set ps"
  then have "size (snd p) < size obj" by (induction ps arbitrary: obj) auto
  then show "(snd p, obj) \<in> measure size" by simp
next
  fix obj :: jsval and ps and p :: "string \<times> jsval"
  assume "obj = Reparented ps" and "p \<in> set ps"
  then have "size (snd p) < size obj" by (induction ps arbitrary: obj) auto
  then show "(snd p, obj) \<in> measure size" by simp
qed

text \<open>
  \<^verbatim>\<open>Array.prototype.map\<close> makes an array of the same length and fills in the elements
  that are present; named properties are not carried over.
\<close>

definition is_element :: "nat \<Rightarrow> string \<times> jsval \<Rightarrow> bool" where
  "is_element n p = (case array_index (fst p) of Some i \<Rightarrow> i < n | None \<Rightarrow> False)"

text \<open>
  \<^verbatim>\<open>cloned[key] = x\<close> on the object that \<^verbatim>\<open>deepClone\<close> is filling: an assignment as any
  other, so for the key \<^verbatim>\<open>__proto__\<close> it runs the inherited setter and adds no property.
  An object has each of its keys once; a second \<^verbatim>\<open>__proto__\<close>, which only a list of
  properties that no object has could supply, is left out.
\<close>

definition assign :: "jsval \<Rightarrow> string \<Rightarrow> jsval \<Rightarrow> jsval" where
  "assign cloned key x = (case js_set cloned key x of Inr c \<Rightarrow> c | Inl e \<Rightarrow> cloned)"

text \<open>
  \<^verbatim>\<open>deepClone\<close>. Every call, the recursive ones too, first tries \<^verbatim>\<open>structuredClone\<close> and
  falls back on the hand-written copy when that is not a function or throws, as it does
  for a value that it cannot clone (a reactive proxy of the stores, for one). Which of
  the two happens is the platform's affair: \<open>native at\<close> says that \<^verbatim>\<open>structuredClone\<close> is
  a function and returns, for the call on the part of the value at the position \<open>at\<close>
  (the keys that lead to it from the value of the outermost call). In the copy of an
  object, \<^verbatim>\<open>for (const key in obj)\<close> with its \<^verbatim>\<open>hasOwnProperty\<close> test visits the own keys.
  In the copy of an array, \<^verbatim>\<open>obj.map\<close> is taken to be the method that arrays inherit and
  to build an ordinary array: an array with a property of its own named \<^verbatim>\<open>map\<close> or
  \<^verbatim>\<open>constructor\<close>, which JSON cannot write, is outside the model.
\<close>

type_synonym chooser = "string list \<Rightarrow> bool"

function deepClone :: "chooser \<Rightarrow> string list \<Rightarrow> jsval \<Rightarrow> jsval" where
  "deepClone native at obj =
     (if native at then structuredClone obj
      else if obj = Null \<or> typeof obj \<noteq> ''object'' then obj
      else if isArray obj then
        (case obj of
           Arr n ps \<Rightarrow>
             Arr n (map (\<lambda>p. (fst p, deepClone native (at @ [fst p]) (snd p)))
                      (filter (is_element n) ps))
         | _ \<Rightarrow> obj)
      else
        fold (\<lambda>key cloned. assign cloned key (deepClone native (at @ [key]) (own_prop obj key)))
          (keys obj) (Obj []))"
  by pat_completeness auto
termination
proof (relation "measure (\<lambda>(native, at, obj). size obj)")
  show "wf (measure (\<lambda>(native, at, obj). size obj))" by simp
next
  fix native :: chooser and at :: "string list" and obj :: jsval and n ps
    and p :: "string \<times> jsval"
  assume "obj = Arr n ps" and "p \<in> set (filter (is_element n) ps)"
  then have "p \<in> set ps" by simp
  then have "size (snd p) < Suc (size_list (size_prod (\<lambda>_. 0) size) ps)"
    by (induction ps) auto
  with \<open>obj = Arr n ps\<close>
  show "((native, at @ [fst p], snd p), (native, at, obj))
          \<in> measure (\<lambda>(native, at, obj). size obj)"
    by simp
next
  fix native :: chooser and at :: "string list" and obj :: jsval and key :: string
  assume key: "key \<in> set (keys obj)"
  have member: "size (snd p) < Suc (size_list (size_prod (\<lambda>_. 0) size) ps)"
    if "p \<in> set ps" for p :: "string \<times> jsval" and ps
    using that by (induction ps) auto
  have "size (lookup ps k) < Suc (size_list (size_prod (\<lambda>_. 0) size) ps)"
    if "k \<in> set (map fst ps)" for ps k
  proof -
    from that obtain v where "map_of ps k = Some v"
      by (metis map_of_eq_None_iff not_Some_eq set_map)
    then have "lookup ps k = snd (k, v)" and "(k, v) \<in> set ps"
      by (simp_all add: lookup_def map_of_SomeD)
    then show ?thesis using member by metis
  qed
  with key have "size (own_prop obj key) < size obj"
    by (cases obj) (auto simp del: set_map)
  then show "((native, at @ [key], own_prop obj key), (native, at, obj))
               \<in> measure (\<lambda>(native, at, obj). size obj)"
    by simp
qed

declare deepEqual.simps [simp del]
declare structuredClone.simps [simp del]
declare deepClone.simps [simp del]

text \<open>
  Two platforms for the examples: one where \<^verbatim>\<open>structuredClone\<close> always returns,
  and one where it never does.
\<close>

definition always :: chooser where
  "always at = True"

definition never :: chooser where
  "never at = False"

subsection \<open>The history store of \<^verbatim>\<open>store.js\<close>\<close>

text \<open>
  \<^verbatim>\<open>Alpine.store('history', { stack: [], index: -1, maxSize: 10, ... })\<close>. The entries of
  the stack are snapshots made by \<^verbatim>\<open>deepClone\<close>, which nothing else refers to, so the
  stack is a list of values.
\<close>

record history =
  stack :: "jsval list"
  index :: int
  maxSize :: int

definition initStores_history :: history where
  "initStores_history = \<lparr>stack = [], index = - 1, maxSize = 10\<rparr>"

text \<open>\<^verbatim>\<open>xs.slice(0, e)\<close>: a negative end counts from the end of the array.\<close>

definition slice0 :: "'a list \<Rightarrow> int \<Rightarrow> 'a list" where
  "slice0 xs e = (if e < 0 then take (nat (int (length xs) + e)) xs else take (nat e) xs)"

text \<open>\<^verbatim>\<open>xs[i]\<close> on an array of the program: \<^verbatim>\<open>undefined\<close> out of range.\<close>

definition at_index :: "jsval list \<Rightarrow> int \<Rightarrow> jsval" where
  "at_index xs i = (if 0 \<le> i \<and> i < int (length xs) then xs ! nat i else Undefined)"

definition canUndo :: "history \<Rightarrow> bool" where
  "canUndo h = (index h > 0)"

definition canRedo :: "history \<Rightarrow> bool" where
  "canRedo h = (index h < int (length (stack h)) - 1)"

definition push :: "chooser \<Rightarrow> jsval \<Rightarrow> history \<Rightarrow> history" where
  "push native state h =
     (let h1 = (if index h < int (length (stack h)) - 1
                then h\<lparr>stack := slice0 (stack h) (index h + 1)\<rparr> else h);
          h2 = h1\<lparr>stack := stack h1 @ [deepClone native [] state]\<rparr>;
          h3 = h2\<lparr>index := int (length (stack h2)) - 1\<rparr>
      in if int (length (stack h3)) > maxSize h3
         then h3\<lparr>stack := tl (stack h3), index := index h3 - 1\<rparr>
         else h3)"

text \<open>\<^verbatim>\<open>undo\<close> and \<^verbatim>\<open>redo\<close> return the store and the value returned to the caller.\<close>

definition undo :: "chooser \<Rightarrow> history \<Rightarrow> history \<times> jsval" where
  "undo native h =
     (if \<not> canUndo h then (h, Null)
      else (let h' = h\<lparr>index := index h - 1\<rparr>
            in (h', deepClone native [] (at_index (stack h') (index h')))))"

definition redo :: "chooser \<Rightarrow> history \<Rightarrow> history \<times> jsval" where
  "redo native h =
     (if \<not> canRedo h then (h, Null)
      else (let h' = h\<lparr>index := index h + 1\<rparr>
            in (h', deepClone native [] (at_index (stack h') (index h')))))"

definition clear :: "history \<Rightarrow> history" where
  "clear h = h\<lparr>stack := [], index := - 1\<rparr>"

definition init :: "chooser \<Rightarrow> jsval \<Rightarrow> history \<Rightarrow> history" where
  "init native initialState h = push native initialState (clear h)"

text \<open>
  A call of one of the store's methods, with what \<^verbatim>\<open>structuredClone\<close> does during it,
  and a run of calls with what they returned.
\<close>

datatype call =
    Push chooser jsval
  | Undo chooser
  | Redo chooser
  | Clear
  | Init chooser jsval

fun call_method :: "call \<Rightarrow> history \<Rightarrow> history \<times> jsval" where
  "call_method (Push native state) h = (push native state h, Undefined)"
| "call_method (Undo native) h = undo native h"
| "call_method (Redo native) h = redo native h"
| "call_method Clear h = (clear h, Undefined)"
| "call_method (Init native state) h = (init native state h, Undefined)"

fun run :: "call list \<Rightarrow> history \<Rightarrow> history \<times> jsval list" where
  "run [] h = (h, [])"
| "run (c # cs) h =
     (case call_method c h of
        (h', r) \<Rightarrow> (case run cs h' of (h'', rs) \<Rightarrow> (h'', r # rs)))"

subsection \<open>The history store of \<^verbatim>\<open>undo_redo.js\<close>\<close>

text \<open>
  \<^verbatim>\<open>initHistoryStore\<close> registers a store of the same shape under the same name; its
  methods are modelled from its own text, with the suffix \<open>_ur\<close>.
\<close>

definition initHistoryStore :: history where
  "initHistoryStore = \<lparr>stack = [], index = - 1, maxSize = 10\<rparr>"

definition canUndo_ur :: "history \<Rightarrow> bool" where
  "canUndo_ur h = (index h > 0)"

definition canRedo_ur :: "history \<Rightarrow> bool" where
  "canRedo_ur h = (index h < int (length (stack h)) - 1)"

definition push_ur :: "chooser \<Rightarrow> jsval \<Rightarrow> history \<Rightarrow> history" where
  "push_ur native state h =
     (let h1 = (if index h < int (length (stack h)) - 1
                then h\<lparr>stack := slice0 (stack h) (index h + 1)\<rparr> else h);
          h2 = h1\<lparr>stack := stack h1 @ [deepClone native [] state]\<rparr>;
          h3 = h2\<lparr>index := int (length (stack h2)) - 1\<rparr>
      in if int (length (stack h3)) > maxSize h3
         then h3\<lparr>stack := tl (stack h3), index := index h3 - 1\<rparr>
         else h3)"

definition undo_ur :: "chooser \<Rightarrow> history \<Rightarrow> history \<times> jsval" where
  "undo_ur native h =
     (if \<not> canUndo_ur h then (h, Null)
      else (let h' = h\<lparr>index := index h - 1\<rparr>
            in (h', deepClone native [] (at_index (stack h') (index h')))))"

definition redo_ur :: "chooser \<Rightarrow> history \<Rightarrow> history \<times> jsval" where
  "redo_ur native h =
     (if \<not> canRedo_ur h then (h, Null)
      else (let h' = h\<lparr>index := index h + 1\<rparr>
            in (h', deepClone native [] (at_index (stack h') (index h')))))"

definition clear_ur :: "history \<Rightarrow> history" where
  "clear_ur h = h\<lparr>stack := [], index := - 1\<rparr>"

definition init_ur :: "chooser \<Rightarrow> jsval \<Rightarrow> history \<Rightarrow> history" where
  "init_ur native initialState h = push_ur native initialState (clear_ur h)"

fun call_method_ur :: "call \<Rightarrow> history \<Rightarrow> history \<times> jsval" where
  "call_method_ur (Push native state) h = (push_ur native state h, Undefined)"
| "call_method_ur (Undo native) h = undo_ur native h"
| "call_method_ur (Redo native) h = redo_ur native h"
| "call_method_ur Clear h = (clear_ur h, Undefined)"
| "call_method_ur (Init native state) h = (init_ur native state h, Undefined)"

fun run_ur :: "call list \<Rightarrow> history \<Rightarrow> history \<times> jsval list" where
  "run_ur [] h = (h, [])"
| "run_ur (c # cs) h =
     (case call_method_ur c h of
        (h', r) \<Rightarrow> (case run_ur cs h' of (h'', rs) \<Rightarrow> (h'', r # rs)))"
subsection \<open>JSON-like documents\<close>

text \<open>
  A document is a JSON-compatible tree: \<^verbatim>\<open>null\<close>, booleans, numbers, strings, arrays and
  objects of documents. Its objects have distinct keys and the prototype
  \<^verbatim>\<open>Object.prototype\<close>, and its arrays have exactly their elements as properties: every
  index below the length once, no hole and no named property. Any string is a key of
  JSON, \<^verbatim>\<open>__proto__\<close> too: \<^verbatim>\<open>JSON.parse\<close> makes it an own property.
\<close>

fun json_like :: "jsval \<Rightarrow> bool" where
  "json_like Undefined = False"
| "json_like Null = True"
| "json_like (Bool b) = True"
| "json_like (Num n) = True"
| "json_like (Str s) = True"
| "json_like (Arr n ps) =
     (distinct (map fst ps) \<and> length ps = n \<and>
      list_all (\<lambda>p. is_element n p \<and> json_like (snd p)) ps)"
| "json_like (Obj ps) = (distinct (map fst ps) \<and> list_all (\<lambda>p. json_like (snd p)) ps)"
| "json_like (Reparented ps) = False"

text \<open>No object of the value, at any depth, has an own property named \<^verbatim>\<open>__proto__\<close>.\<close>

fun proto_free :: "jsval \<Rightarrow> bool" where
  "proto_free (Arr n ps) = list_all (\<lambda>p. proto_free (snd p)) ps"
| "proto_free (Obj ps) = (''__proto__'' \<notin> set (map fst ps) \<and> list_all (\<lambda>p. proto_free (snd p)) ps)"
| "proto_free (Reparented ps) =
     (''__proto__'' \<notin> set (map fst ps) \<and> list_all (\<lambda>p. proto_free (snd p)) ps)"
| "proto_free v = True"

text \<open>Every object of the value, at any depth, has the prototype \<^verbatim>\<open>Object.prototype\<close>.\<close>

fun plain :: "jsval \<Rightarrow> bool" where
  "plain (Arr n ps) = list_all (\<lambda>p. plain (snd p)) ps"
| "plain (Obj ps) = list_all (\<lambda>p. plain (snd p)) ps"
| "plain (Reparented ps) = False"
| "plain v = True"

text \<open>\<^verbatim>\<open>typeof v === 'object' && v !== null\<close>: an object or an array.\<close>

definition is_object :: "jsval \<Rightarrow> bool" where
  "is_object v = (typeof v = ''object'' \<and> v \<noteq> Null)"

definition is_object_r :: "reached \<Rightarrow> bool" where
  "is_object_r r = (typeof_r r = ''object'' \<and> r \<noteq> Val Null)"

fun is_number :: "jsval \<Rightarrow> bool" where
  "is_number (Num m) = True"
| "is_number v = False"

text \<open>
  The methods of the prototypes in ECMAScript 2023 with Annex B, for the examples:
  those of \<^verbatim>\<open>Object.prototype\<close>, which every value inherits, and those of
  \<^verbatim>\<open>Array.prototype\<close>, \<^verbatim>\<open>String.prototype\<close>, \<^verbatim>\<open>Number.prototype\<close> and \<^verbatim>\<open>Boolean.prototype\<close>.
\<close>

definition object_methods :: "string list" where
  "object_methods =
     [''__defineGetter__'', ''__defineSetter__'', ''__lookupGetter__'', ''__lookupSetter__'',
      ''hasOwnProperty'', ''isPrototypeOf'', ''propertyIsEnumerable'', ''toLocaleString'',
      ''toString'', ''valueOf'']"

definition array_methods :: "string list" where
  "array_methods =
     [''at'', ''concat'', ''copyWithin'', ''entries'', ''every'', ''fill'', ''filter'', ''find'',
      ''findIndex'', ''findLast'', ''findLastIndex'', ''flat'', ''flatMap'', ''forEach'',
      ''includes'', ''indexOf'', ''join'', ''keys'', ''lastIndexOf'', ''map'', ''pop'', ''push'',
      ''reduce'', ''reduceRight'', ''reverse'', ''shift'', ''slice'', ''some'', ''sort'',
      ''splice'', ''toReversed'', ''toSorted'', ''toSpliced'', ''unshift'', ''values'', ''with'']"

definition string_methods :: "string list" where
  "string_methods =
     [''anchor'', ''at'', ''big'', ''blink'', ''bold'', ''charAt'', ''charCodeAt'',
      ''codePointAt'', ''concat'', ''endsWith'', ''fixed'', ''fontcolor'', ''fontsize'',
      ''includes'', ''indexOf'', ''isWellFormed'', ''italics'', ''lastIndexOf'', ''link'',
      ''localeCompare'', ''match'', ''matchAll'', ''normalize'', ''padEnd'', ''padStart'',
      ''repeat'', ''replace'', ''replaceAll'', ''search'', ''slice'', ''small'', ''split'',
      ''startsWith'', ''strike'', ''sub'', ''substr'', ''substring'', ''sup'',
      ''toLocaleLowerCase'', ''toLocaleUpperCase'', ''toLowerCase'', ''toUpperCase'',
      ''toWellFormed'', ''trim'', ''trimEnd'', ''trimLeft'', ''trimRight'', ''trimStart'']"

definition number_methods :: "string list" where
  "number_methods = [''toExponential'', ''toFixed'', ''toPrecision'']"

fun es2023 :: platform where
  "es2023 OfObject k = (k \<in> set object_methods)"
| "es2023 OfArray k = (k \<in> set (array_methods @ object_methods))"
| "es2023 OfString k = (k \<in> set (string_methods @ object_methods))"
| "es2023 OfNumber k = (k \<in> set (number_methods @ object_methods))"
| "es2023 OfBoolean k = (k \<in> set object_methods)"



subsection \<open>The card store and its timer\<close>

text \<open>
  Of \<^verbatim>\<open>Alpine.store('card', ...)\<close> the fields that \<^verbatim>\<open>checkChanges\<close> reads or writes:
  the document, the snapshot it is compared with, the dirty flag, and the handle of the
  pending timer (\<^verbatim>\<open>null\<close> when there is none).
\<close>

record card =
  data :: jsval
  originalData :: jsval
  hasChanges :: bool
  checkChangesTimer :: "nat option"

text \<open>
  The platform's timers, as far as the store uses them. \<^verbatim>\<open>setTimeout\<close> returns a new
  handle and makes the callback due after the delay; \<^verbatim>\<open>clearTimeout\<close> removes the timer
  with the handle; when time passes, the event loop runs the callbacks that are due, each
  once. The event loop is taken to run a callback as soon as it is due. The only callback
  the card store ever queues is the arrow function of \<^verbatim>\<open>checkChanges\<close>, so a pending
  timer is a handle and the time it is due at. Time is in milliseconds; \<open>recomputed\<close>
  counts the runs of the callback.
\<close>

record world =
  cardStore :: card
  now :: nat
  timers :: "(nat \<times> nat) list"
  nextHandle :: nat
  recomputed :: nat

definition setTimeout :: "nat \<Rightarrow> world \<Rightarrow> world \<times> nat" where
  "setTimeout delay w =
     (w\<lparr>timers := timers w @ [(nextHandle w, now w + delay)], nextHandle := Suc (nextHandle w)\<rparr>,
      nextHandle w)"

definition clearTimeout :: "nat \<Rightarrow> world \<Rightarrow> world" where
  "clearTimeout h w = w\<lparr>timers := filter (\<lambda>t. fst t \<noteq> h) (timers w)\<rparr>"

text \<open>
  The arrow function passed to \<^verbatim>\<open>setTimeout\<close>: the precise comparison.
\<close>

definition timer_callback :: "world \<Rightarrow> world" where
  "timer_callback w =
     w\<lparr>cardStore := (cardStore w)
         \<lparr>hasChanges := \<not> deepEqual (data (cardStore w)) (originalData (cardStore w)),
          checkChangesTimer := None\<rparr>,
       recomputed := Suc (recomputed w)\<rparr>"

text \<open>
  \<^verbatim>\<open>checkChanges\<close>. A handle is truthy unless it is 0, and the platform's handles are
  positive.
\<close>

definition checkChanges :: "world \<Rightarrow> world" where
  "checkChanges w =
     (let w1 = w\<lparr>cardStore := (cardStore w)\<lparr>hasChanges := True\<rparr>\<rparr>;
          w2 = (case checkChangesTimer (cardStore w1) of
                  Some h \<Rightarrow> if h \<noteq> 0 then clearTimeout h w1 else w1
                | None \<Rightarrow> w1);
          (w3, h) = setTimeout 500 w2
      in w3\<lparr>cardStore := (cardStore w3)\<lparr>checkChangesTimer := Some h\<rparr>\<rparr>)"

definition is_due :: "nat \<Rightarrow> nat \<times> nat \<Rightarrow> bool" where
  "is_due t timer = (snd timer \<le> t)"

definition elapse :: "nat \<Rightarrow> world \<Rightarrow> world" where
  "elapse dt w =
     (let t = now w + dt;
          due = filter (is_due t) (timers w);
          w' = w\<lparr>now := t, timers := filter (\<lambda>timer. \<not> is_due t timer) (timers w)\<rparr>
      in fold (\<lambda>timer. timer_callback) due w')"

text \<open>
  An assignment to the document by other code of the application (\<^verbatim>\<open>setByPath\<close> in
  \<^verbatim>\<open>updateField\<close>, or \<^verbatim>\<open>Alpine.store('card').data = state\<close> after an undo), and what can
  happen to the store: a call of \<^verbatim>\<open>checkChanges\<close>, time passing, an edit.
\<close>

definition edit :: "jsval \<Rightarrow> world \<Rightarrow> world" where
  "edit d w = w\<lparr>cardStore := (cardStore w)\<lparr>data := d\<rparr>\<rparr>"

datatype event = Call | Wait nat | Edit jsval

fun happen :: "event \<Rightarrow> world \<Rightarrow> world" where
  "happen Call w = checkChanges w"
| "happen (Wait dt) w = elapse dt w"
| "happen (Edit d) w = edit d w"

text \<open>
  The store after \<^verbatim>\<open>loadCard\<close> of a document: \<^verbatim>\<open>data\<close> is the document,
  \<^verbatim>\<open>originalData\<close> its \<^verbatim>\<open>deepClone\<close>, the flag is clear and no timer has been set yet.
\<close>

definition world0 :: "chooser \<Rightarrow> jsval \<Rightarrow> world" where
  "world0 native d =
     \<lparr>cardStore = \<lparr>data = d, originalData = deepClone native [] d, hasChanges = False, checkChangesTimer = None\<rparr>,
      now = 0, timers = [], nextHandle = 1, recomputed = 0\<rparr>"

text \<open>
  A burst of calls of \<^verbatim>\<open>checkChanges\<close>: before each call a pause and an edit.
\<close>

fun burst :: "(nat \<times> jsval) list \<Rightarrow> world \<Rightarrow> world" where
  "burst [] w = w"
| "burst ((gap, d) # rest) w = burst rest (checkChanges (edit d (elapse gap w)))"

text \<open>
  The invariant of the timer: the store's handle is the one pending timer, if any. After
  a call the store is \<open>armed\<close>: dirty, with one timer due in 500 ms.
\<close>

definition timer_inv :: "world \<Rightarrow> bool" where
  "timer_inv w =
     (0 < nextHandle w \<and>
      (case checkChangesTimer (cardStore w) of
         None \<Rightarrow> timers w = []
       | Some h \<Rightarrow> h \<noteq> 0 \<and> h < nextHandle w \<and> (\<exists>due. timers w = [(h, due)])))"

definition armed :: "world \<Rightarrow> bool" where
  "armed w = (hasChanges (cardStore w) \<and> 0 < nextHandle w \<and>
     (\<exists>h. h \<noteq> 0 \<and> h < nextHandle w \<and> checkChangesTimer (cardStore w) = Some h \<and>
          timers w = [(h, now w + 500)]))"

subsection \<open>Snapshots in the heap\<close>

text \<open>
  Whether a copy shares structure with its original cannot be read off values, so
  \<^verbatim>\<open>deepClone\<close> and \<^verbatim>\<open>deepEqual\<close> are modelled a second time on a heap. A value of the
  program is a primitive or a reference; the heap is the list of the objects and arrays
  allocated so far, an address being a position in it, and allocation appends.
\<close>

type_synonym addr = nat

datatype ref_val = RUndefined | RNull | RBool bool | RNum int | RStr string | Ref addr

text \<open>
  An object with the prototype \<^verbatim>\<open>Object.prototype\<close>, an object whose prototype was
  replaced, or an array; each with its own properties.
\<close>

datatype cell =
    ObjCell "(string \<times> ref_val) list"
  | ReparentedCell "(string \<times> ref_val) list"
  | ArrCell nat "(string \<times> ref_val) list"

type_synonym heap = "cell list"

text \<open>
  A reference of the program always points into the heap; the functions below are total
  and read nothing through one that does not.
\<close>

definition rlookup :: "(string \<times> ref_val) list \<Rightarrow> string \<Rightarrow> ref_val" where
  "rlookup ps k = (case map_of ps k of None \<Rightarrow> RUndefined | Some v \<Rightarrow> v)"

fun typeof_h :: "ref_val \<Rightarrow> string" where
  "typeof_h RUndefined = ''undefined''"
| "typeof_h RNull = ''object''"
| "typeof_h (RBool b) = ''boolean''"
| "typeof_h (RNum n) = ''number''"
| "typeof_h (RStr s) = ''string''"
| "typeof_h (Ref a) = ''object''"

text \<open>The object or array a value refers to, if it is a reference into the heap.\<close>

fun cell_at :: "heap \<Rightarrow> ref_val \<Rightarrow> cell option" where
  "cell_at h (Ref a) = (if a < length h then Some (h ! a) else None)"
| "cell_at h v = None"

definition isArray_h :: "heap \<Rightarrow> ref_val \<Rightarrow> bool" where
  "isArray_h h v = (case cell_at h v of Some (ArrCell n ps) \<Rightarrow> True | _ \<Rightarrow> False)"

definition keys_h :: "heap \<Rightarrow> ref_val \<Rightarrow> string list" where
  "keys_h h v = (case cell_at h v of
                   Some (ObjCell ps) \<Rightarrow> map fst ps
                 | Some (ReparentedCell ps) \<Rightarrow> map fst ps
                 | Some (ArrCell n ps) \<Rightarrow> map fst ps
                 | None \<Rightarrow> [])"

text \<open>\<^verbatim>\<open>v[key]\<close> where \<open>key\<close> is an own property of \<open>v\<close>, as in \<open>own_prop\<close>.\<close>

definition h_prop :: "heap \<Rightarrow> ref_val \<Rightarrow> string \<Rightarrow> ref_val" where
  "h_prop h v k =
     (case cell_at h v of
        Some (ObjCell ps) \<Rightarrow> rlookup ps k
      | Some (ReparentedCell ps) \<Rightarrow> rlookup ps k
      | Some (ArrCell n ps) \<Rightarrow> if k = ''length'' then RNum (int n) else rlookup ps k
      | None \<Rightarrow>
          (case v of
             RStr s \<Rightarrow>
               if k = ''length'' then RNum (int (length s))
               else (case array_index k of
                       Some i \<Rightarrow> if i < length s then RStr [s ! i] else RUndefined
                     | None \<Rightarrow> RUndefined)
           | _ \<Rightarrow> RUndefined))"

text \<open>
  Allocation, and what happens to the object at an address under \<^verbatim>\<open>cloned[key] = x\<close> for
  an object and under the definition of an element by \<^verbatim>\<open>map\<close> for the array it builds.
  The assignment updates an own property or adds one, except for the key \<^verbatim>\<open>__proto__\<close>
  where the object has no such property: then the inherited setter runs, which replaces
  the prototype when \<open>x\<close> is an object or \<^verbatim>\<open>null\<close> and does nothing otherwise. (On an object
  whose prototype was already replaced the model leaves a second such assignment out:
  \<^verbatim>\<open>deepClone\<close> visits each key once.)
\<close>

definition alloc :: "cell \<Rightarrow> heap \<Rightarrow> heap \<times> addr" where
  "alloc c h = (h @ [c], length h)"

fun define_in :: "cell \<Rightarrow> string \<Rightarrow> ref_val \<Rightarrow> cell" where
  "define_in (ObjCell ps) k x =
     (if k = ''__proto__'' \<and> k \<notin> set (map fst ps) then
        (if typeof_h x = ''object'' then ReparentedCell ps else ObjCell ps)
      else ObjCell (AList.update k x ps))"
| "define_in (ReparentedCell ps) k x =
     (if k = ''__proto__'' \<and> k \<notin> set (map fst ps) then ReparentedCell ps
      else ReparentedCell (AList.update k x ps))"
| "define_in (ArrCell n ps) k x =
     (case array_index k of
        Some i \<Rightarrow> ArrCell (max n (Suc i)) (AList.update k x ps)
      | None \<Rightarrow> ArrCell n (AList.update k x ps))"

definition h_define :: "heap \<Rightarrow> addr \<Rightarrow> string \<Rightarrow> ref_val \<Rightarrow> heap" where
  "h_define h b k x = (if b < length h then h[b := define_in (h ! b) k x] else h)"

text \<open>
  The indices \<^verbatim>\<open>Array.prototype.map\<close> visits (those present below the length), and the
  length of an array.
\<close>

definition element_keys :: "heap \<Rightarrow> ref_val \<Rightarrow> string list" where
  "element_keys h v =
     (case cell_at h v of
        Some (ArrCell n ps) \<Rightarrow>
          filter (\<lambda>k. case array_index k of Some i \<Rightarrow> i < n | None \<Rightarrow> False) (map fst ps)
      | _ \<Rightarrow> [])"

definition array_length :: "heap \<Rightarrow> ref_val \<Rightarrow> nat" where
  "array_length h v = (case cell_at h v of Some (ArrCell n ps) \<Rightarrow> n | _ \<Rightarrow> 0)"

text \<open>
  The platform's \<^verbatim>\<open>structuredClone\<close> is a parameter of \<^verbatim>\<open>deepClone\<close>: a function from
  the heap and a value to the heap and the copy, or nothing when \<^verbatim>\<open>structuredClone\<close> is
  not a function or throws.
\<close>

type_synonym cloner = "heap \<Rightarrow> ref_val \<Rightarrow> (heap \<times> ref_val) option"

text \<open>
  \<^verbatim>\<open>deepClone\<close>. The recursion follows the references of the heap, which may form a
  cycle, where the hand-written copy does not return; the first argument after the cloner
  bounds the depth of the recursion, and the result is \<open>None\<close> when the bound is hit.
  \<open>clone_keys\<close> is the loop over the keys: \<^verbatim>\<open>for (const key in obj)\<close> for an object, the
  indices of \<^verbatim>\<open>obj.map\<close> for an array; \<open>b\<close> is the address of the copy under
  construction.
\<close>

fun deepClone_h :: "cloner \<Rightarrow> nat \<Rightarrow> heap \<Rightarrow> ref_val \<Rightarrow> (heap \<times> ref_val) option"
  and clone_keys :: "cloner \<Rightarrow> nat \<Rightarrow> heap \<Rightarrow> ref_val \<Rightarrow> addr \<Rightarrow> string list \<Rightarrow> heap option"
where
  "deepClone_h sc 0 h obj =
     (case sc h obj of
        Some r \<Rightarrow> Some r
      | None \<Rightarrow> if obj = RNull \<or> typeof_h obj \<noteq> ''object'' then Some (h, obj) else None)"
| "deepClone_h sc (Suc n) h obj =
     (case sc h obj of
        Some r \<Rightarrow> Some r
      | None \<Rightarrow>
          if obj = RNull \<or> typeof_h obj \<noteq> ''object'' then Some (h, obj)
          else if isArray_h h obj then
            (case alloc (ArrCell (array_length h obj) []) h of
               (h1, b) \<Rightarrow> map_option (\<lambda>h2. (h2, Ref b)) (clone_keys sc n h1 obj b (element_keys h obj)))
          else
            (case alloc (ObjCell []) h of
               (h1, b) \<Rightarrow> map_option (\<lambda>h2. (h2, Ref b)) (clone_keys sc n h1 obj b (keys_h h obj))))"
| "clone_keys sc n h obj b [] = Some h"
| "clone_keys sc n h obj b (key # rest) =
     (case deepClone_h sc n h (h_prop h obj key) of
        None \<Rightarrow> None
      | Some (h1, c) \<Rightarrow> clone_keys sc n (h_define h1 b key c) obj b rest)"

text \<open>
  \<^verbatim>\<open>deepEqual\<close>, with \<^verbatim>\<open>a === b\<close> as it is: equal primitives, or one and the same
  reference. \<open>keys_equal\<close> is the loop \<^verbatim>\<open>for (const key of keysA)\<close>.
\<close>

fun deepEqual_h :: "nat \<Rightarrow> heap \<Rightarrow> ref_val \<Rightarrow> ref_val \<Rightarrow> bool option"
  and keys_equal :: "nat \<Rightarrow> heap \<Rightarrow> ref_val \<Rightarrow> ref_val \<Rightarrow> string list \<Rightarrow> string list \<Rightarrow> bool option"
where
  "deepEqual_h n h a b =
     (if a = b then Some True
      else if a = RNull \<or> b = RNull then Some (a = b)
      else if typeof_h a \<noteq> ''object'' \<or> typeof_h b \<noteq> ''object'' then Some False
      else if isArray_h h a \<noteq> isArray_h h b then Some False
      else if length (keys_h h a) \<noteq> length (keys_h h b) then Some False
      else (case n of
              0 \<Rightarrow> None
            | Suc m \<Rightarrow> keys_equal m h a b (keys_h h b) (keys_h h a)))"
| "keys_equal m h a b keysB [] = Some True"
| "keys_equal m h a b keysB (key # keysA) =
     (if key \<notin> set keysB then Some False
      else (case deepEqual_h m h (h_prop h a key) (h_prop h b key) of
              None \<Rightarrow> None
            | Some False \<Rightarrow> Some False
            | Some True \<Rightarrow> keys_equal m h a b keysB keysA))"

declare deepEqual_h.simps(1) [simp del]

text \<open>
  The document a value of the heap stands for, read to a bounded depth.
\<close>

fun abs_val :: "nat \<Rightarrow> heap \<Rightarrow> ref_val \<Rightarrow> jsval option"
  and abs_props :: "nat \<Rightarrow> heap \<Rightarrow> (string \<times> ref_val) list \<Rightarrow> (string \<times> jsval) list option"
where
  "abs_val n h RUndefined = Some Undefined"
| "abs_val n h RNull = Some Null"
| "abs_val n h (RBool b) = Some (Bool b)"
| "abs_val n h (RNum i) = Some (Num i)"
| "abs_val n h (RStr s) = Some (Str s)"
| "abs_val 0 h (Ref a) = None"
| "abs_val (Suc n) h (Ref a) =
     (if a < length h then
        (case h ! a of
           ObjCell ps \<Rightarrow> map_option Obj (abs_props n h ps)
         | ReparentedCell ps \<Rightarrow> map_option Reparented (abs_props n h ps)
         | ArrCell len ps \<Rightarrow> map_option (Arr len) (abs_props n h ps))
      else None)"
| "abs_props n h [] = Some []"
| "abs_props n h (p # ps) =
     (case abs_val n h (snd p) of
        None \<Rightarrow> None
      | Some d \<Rightarrow> map_option (\<lambda>ds. (fst p, d) # ds) (abs_props n h ps))"

text \<open>
  Two heaps agree on the addresses from \<open>lo\<close> up to \<open>hi\<close>. A value is confined to these
  addresses when it stands for the same document in every heap that agrees with this one
  there: whatever is written elsewhere does not change it.
\<close>

definition agree :: "nat \<Rightarrow> nat \<Rightarrow> heap \<Rightarrow> heap \<Rightarrow> bool" where
  "agree lo hi h h' =
     (hi \<le> length h \<and> hi \<le> length h' \<and> (\<forall>a. lo \<le> a \<and> a < hi \<longrightarrow> h' ! a = h ! a))"

definition confined :: "nat \<Rightarrow> nat \<Rightarrow> nat \<Rightarrow> heap \<Rightarrow> ref_val \<Rightarrow> jsval \<Rightarrow> bool" where
  "confined lo hi n h v d = (\<forall>h'. agree lo hi h h' \<longrightarrow> abs_val n h' v = Some d)"

text \<open>
  The documents that \<^verbatim>\<open>deepClone\<close> copies faithfully: JSON-like, with no property named
  \<^verbatim>\<open>__proto__\<close>.
\<close>

definition document :: "jsval \<Rightarrow> bool" where
  "document d = (json_like d \<and> proto_free d)"

text \<open>
  What is assumed of \<^verbatim>\<open>structuredClone\<close> when it returns: it leaves the objects that
  exist as they are, and its result stands for the same document in newly allocated
  objects only.
\<close>

definition cloner_contract :: "cloner \<Rightarrow> bool" where
  "cloner_contract sc =
     (\<forall>h v h' v' n d.
        sc h v = Some (h', v') \<and> abs_val n h v = Some d \<and> document d \<longrightarrow>
          length h \<le> length h' \<and> agree 0 (length h) h h' \<and>
          confined (length h) (length h') n h' v' d)"

text \<open>A platform without \<^verbatim>\<open>structuredClone\<close>.\<close>

definition no_structuredClone :: cloner where
  "no_structuredClone h v = None"

text \<open>
  \<open>clones_well sc m\<close>: to depth \<open>m\<close>, \<^verbatim>\<open>deepClone\<close> returns for every such document,
  leaves the heap it found as it was, and its result is confined to what it allocated.
\<close>

definition clones_well :: "cloner \<Rightarrow> nat \<Rightarrow> bool" where
  "clones_well sc m =
     (\<forall>h v d. abs_val m h v = Some d \<and> document d \<longrightarrow>
        (\<exists>h' v'. deepClone_h sc m h v = Some (h', v') \<and> length h \<le> length h' \<and>
           agree 0 (length h) h h' \<and> confined (length h) (length h') m h' v' d))"

text \<open>The invariant of the history store.\<close>

definition history_inv :: "history \<Rightarrow> bool" where
  "history_inv h = (- 1 \<le> index h \<and> index h < int (length (stack h)) \<and>
     (index h = - 1 \<longleftrightarrow> stack h = []) \<and> int (length (stack h)) \<le> maxSize h)"




section \<open>Properties\<close>

subsection \<open>Documents, their copies and their comparison\<close>

lemma lookup_member: "k \<in> set (map fst ps) \<Longrightarrow> (k, lookup ps k) \<in> set ps"
proof -
  assume "k \<in> set (map fst ps)"
  then obtain v where "map_of ps k = Some v"
    by (metis map_of_eq_None_iff not_Some_eq set_map)
  then show ?thesis by (simp add: lookup_def map_of_SomeD)
qed

lemma json_like_prop:
  assumes "json_like a" "key \<in> set (keys a)"
  shows "json_like (own_prop a key)"
proof (cases a)
  case (Arr n ps)
  with assms have "(key, lookup ps key) \<in> set ps" by (simp add: lookup_member del: set_map)
  with assms Arr have "json_like (lookup ps key)" by (auto simp: list_all_iff)
  with Arr show ?thesis by simp
next
  case (Obj ps)
  with assms have "(key, lookup ps key) \<in> set ps" by (simp add: lookup_member del: set_map)
  with assms Obj have "json_like (lookup ps key)" by (auto simp: list_all_iff)
  with Obj show ?thesis by simp
qed (use assms in auto)

lemma size_own_prop: "key \<in> set (keys a) \<Longrightarrow> size (own_prop a key) < size a"
proof -
  assume key: "key \<in> set (keys a)"
  have member: "size (snd p) < Suc (size_list (size_prod (\<lambda>_. 0) size) ps)"
    if "p \<in> set ps" for p :: "string \<times> jsval" and ps
    using that by (induction ps) auto
  have "size (lookup ps k) < Suc (size_list (size_prod (\<lambda>_. 0) size) ps)"
    if "k \<in> set (map fst ps)" for ps k
    using member [OF lookup_member [OF that]] by simp
  with key show ?thesis
    by (cases a) (auto simp del: set_map)
qed

lemma deepEqual_prims [simp]:
  "deepEqual Undefined Undefined" "deepEqual Null Null" "deepEqual (Bool b) (Bool b)"
  "deepEqual (Num n) (Num n)" "deepEqual (Str s) (Str s)"
  by (simp_all add: deepEqual.simps)

text \<open>
  A value compared with itself: \<^verbatim>\<open>deepEqual\<close> answers \<^verbatim>\<open>true\<close>, by the comparison of the
  properties alone.
\<close>

lemma deepEqual_refl: "deepEqual d d"
proof (induction "size d" arbitrary: d rule: less_induct)
  case less
  have sub: "deepEqual (own_prop d key) (own_prop d key)" if "key \<in> set (keys d)" for key
    using less.hyps [OF size_own_prop [OF that]] .
  show ?case
  proof (cases d)
    case (Arr n ps)
    then show ?thesis
      using sub by (subst deepEqual.simps) (simp add: list_all_iff del: set_map)
  next
    case (Obj ps)
    then show ?thesis
      using sub by (subst deepEqual.simps) (simp add: list_all_iff del: set_map)
  next
    case (Reparented ps)
    then show ?thesis
      using sub by (subst deepEqual.simps) (simp add: list_all_iff del: set_map)
  qed simp_all
qed

lemma fold_update_fresh:
  "distinct (map fst acc @ ks) \<Longrightarrow>
   fold (\<lambda>key cloned. AList.update key (f key) cloned) ks acc = acc @ map (\<lambda>k. (k, f k)) ks"
proof (induction ks arbitrary: acc)
  case Nil
  then show ?case by simp
next
  case (Cons k ks)
  from Cons.prems have k: "k \<notin> set (map fst acc)" by auto
  then have upd: "AList.update k (f k) acc = acc @ [(k, f k)]"
    by (induction acc) auto
  from Cons.prems have "distinct (map fst (acc @ [(k, f k)]) @ ks)" by auto
  from Cons.IH [OF this] upd show ?case by simp
qed

lemma array_index_length [simp]: "array_index ''length'' = None"
proof -
  have "\<not> is_digit CHR ''l''" by (simp add: is_digit_def)
  then have "\<not> all_digits ''length''" by (simp add: all_digits_def)
  then show ?thesis by (simp only: array_index_def if_False simp_thms)
qed

lemma is_element_not_length: "is_element n p \<Longrightarrow> fst p \<noteq> ''length''"
  by (auto simp: is_element_def)

lemma lookup_distinct:
  assumes "distinct (map fst ps)" "p \<in> set ps"
  shows "lookup ps (fst p) = snd p"
proof -
  from assms have "map_of ps (fst p) = Some (snd p)"
    by (intro map_of_is_SomeI) simp_all
  then show ?thesis by (simp add: lookup_def)
qed

lemma json_like_plain: "json_like d \<Longrightarrow> plain d"
proof (induction "size d" arbitrary: d rule: less_induct)
  case less
  have member: "size (snd p) < Suc (size_list (size_prod (\<lambda>_. 0) size) ps)"
    if "p \<in> set ps" for p :: "string \<times> jsval" and ps
    using that by (induction ps) auto
  show ?case
  proof (cases d)
    case (Arr n ps)
    have "plain (snd p)" if "p \<in> set ps" for p
      using less.hyps [of "snd p"] member [OF that] less.prems that Arr
      by (auto simp: list_all_iff)
    with Arr show ?thesis by (simp add: list_all_iff)
  next
    case (Obj ps)
    have "plain (snd p)" if "p \<in> set ps" for p
      using less.hyps [of "snd p"] member [OF that] less.prems that Obj
      by (auto simp: list_all_iff)
    with Obj show ?thesis by (simp add: list_all_iff)
  qed (use less.prems in auto)
qed

lemma structuredClone_plain: "plain d \<Longrightarrow> structuredClone d = d"
proof (induction "size d" arbitrary: d rule: less_induct)
  case less
  have member: "size (snd p) < Suc (size_list (size_prod (\<lambda>_. 0) size) ps)"
    if "p \<in> set ps" for p :: "string \<times> jsval" and ps
    using that by (induction ps) auto
  show ?case
  proof (cases d)
    case (Arr n ps)
    have "structuredClone (snd p) = snd p" if "p \<in> set ps" for p
      using less.hyps [of "snd p"] member [OF that] less.prems that Arr
      by (auto simp: list_all_iff)
    then have "map (\<lambda>p. (fst p, structuredClone (snd p))) ps = ps"
      by (simp add: map_idI)
    with Arr show ?thesis by (subst structuredClone.simps) simp
  next
    case (Obj ps)
    have "structuredClone (snd p) = snd p" if "p \<in> set ps" for p
      using less.hyps [of "snd p"] member [OF that] less.prems that Obj
      by (auto simp: list_all_iff)
    then have "map (\<lambda>p. (fst p, structuredClone (snd p))) ps = ps"
      by (simp add: map_idI)
    with Obj show ?thesis by (subst structuredClone.simps) simp
  qed (use less.prems in \<open>simp_all add: structuredClone.simps\<close>)
qed

lemma proto_free_prop:
  assumes "proto_free a" "key \<in> set (keys a)"
  shows "proto_free (own_prop a key)"
proof (cases a)
  case (Arr n ps)
  with assms have "(key, lookup ps key) \<in> set ps" by (simp add: lookup_member del: set_map)
  with assms Arr have "proto_free (lookup ps key)" by (auto simp: list_all_iff)
  then show ?thesis using Arr by (cases "key = ''length''") simp_all
next
  case (Obj ps)
  with assms have "(key, lookup ps key) \<in> set ps" by (simp add: lookup_member del: set_map)
  with assms Obj have "proto_free (lookup ps key)" by (auto simp: list_all_iff)
  with Obj show ?thesis by simp
next
  case (Reparented ps)
  with assms have "(key, lookup ps key) \<in> set ps" by (simp add: lookup_member del: set_map)
  with assms Reparented have "proto_free (lookup ps key)" by (auto simp: list_all_iff)
  with Reparented show ?thesis by simp
qed (use assms in auto)

lemma fold_assign:
  "''__proto__'' \<notin> set ks \<Longrightarrow>
   fold (\<lambda>key cloned. assign cloned key (f key)) ks (Obj acc) =
   Obj (fold (\<lambda>key cloned. AList.update key (f key) cloned) ks acc)"
proof (induction ks arbitrary: acc)
  case Nil
  then show ?case by simp
next
  case (Cons k ks)
  then have k: "k \<noteq> ''__proto__''" and ks: "''__proto__'' \<notin> set ks" by auto
  from k have "assign (Obj acc) k (f k) = Obj (AList.update k (f k) acc)"
    by (simp add: assign_def runs_setter_def)
  then show ?case using Cons.IH [OF ks] by simp
qed

text \<open>
  On a document with no property named \<^verbatim>\<open>__proto__\<close> both branches of \<^verbatim>\<open>deepClone\<close>
  return, as a value, the document.
\<close>

lemma deepClone_json:
  assumes "json_like d" "proto_free d"
  shows "deepClone native at d = d"
  using assms
proof (induction "size d" arbitrary: d at rule: less_induct)
  case less
  have sub: "deepClone native at' (own_prop d key) = own_prop d key"
    if "key \<in> set (keys d)" for key at'
    using less.hyps [OF size_own_prop [OF that] json_like_prop [OF less.prems(1) that]
        proto_free_prop [OF less.prems(2) that]] .
  show ?case
  proof (cases "native at")
    case True
    then show ?thesis
      using structuredClone_plain [OF json_like_plain [OF less.prems(1)]]
      by (subst deepClone.simps) simp
  next
    case False
    show ?thesis
    proof (cases d)
      case (Arr n ps)
      with less.prems have all: "filter (is_element n) ps = ps"
        by (auto simp: list_all_iff)
      have "deepClone native (at @ [fst p]) (snd p) = snd p" if "p \<in> set ps" for p
      proof -
        from that Arr less.prems have d: "distinct (map fst ps)" and "fst p \<in> set (keys d)"
          by auto
        then have "lookup ps (fst p) = snd p"
          using that by (simp add: lookup_distinct)
        moreover from less.prems Arr that have "fst p \<noteq> ''length''"
          by (auto simp: list_all_iff dest: is_element_not_length)
        ultimately show ?thesis using sub [OF \<open>fst p \<in> set (keys d)\<close>] Arr by simp
      qed
      then have "map (\<lambda>p. (fst p, deepClone native (at @ [fst p]) (snd p))) ps = ps"
        by (simp add: map_idI)
      with Arr False all show ?thesis by (subst deepClone.simps) simp
    next
      case (Obj ps)
      with less.prems have d: "distinct (map fst ps)" and np: "''__proto__'' \<notin> set (keys d)"
        by simp_all
      have "fold (\<lambda>key cloned. assign cloned key (deepClone native (at @ [key]) (own_prop d key)))
              (keys d) (Obj [])
            = Obj (fold (\<lambda>key cloned. AList.update key (deepClone native (at @ [key]) (own_prop d key)) cloned)
                (keys d) [])"
        by (rule fold_assign [OF np])
      also have "fold (\<lambda>key cloned. AList.update key (deepClone native (at @ [key]) (own_prop d key)) cloned)
                (keys d) []
            = [] @ map (\<lambda>k. (k, deepClone native (at @ [k]) (own_prop d k))) (keys d)"
        by (rule fold_update_fresh) (use d Obj in simp)
      also have "\<dots> = map (\<lambda>k. (k, own_prop d k)) (keys d)"
        using sub by simp
      also have "\<dots> = ps"
      proof -
        have "(fst p, lookup ps (fst p)) = p" if "p \<in> set ps" for p
          using lookup_distinct [OF d that] by simp
        then show ?thesis using Obj by (simp add: o_def map_idI)
      qed
      finally show ?thesis using Obj False by (subst deepClone.simps) simp
    qed (use False less.prems in \<open>simp_all add: deepClone.simps\<close>)
  qed
qed

subsection \<open>The history store\<close>

lemma push_fields:
  "maxSize (push native s h) = maxSize h"
  by (simp add: push_def Let_def)

lemma push_inv: "history_inv h \<Longrightarrow> history_inv (push native s h)"
  unfolding history_inv_def push_def Let_def slice0_def
  by (auto simp: min_def split: if_splits)

lemma undo_inv: "history_inv h \<Longrightarrow> history_inv (fst (undo native h))"
  unfolding history_inv_def undo_def canUndo_def Let_def by auto

lemma redo_inv: "history_inv h \<Longrightarrow> history_inv (fst (redo native h))"
  unfolding history_inv_def redo_def canRedo_def Let_def by auto

lemma clear_inv: "0 \<le> maxSize h \<Longrightarrow> history_inv (clear h)"
  unfolding history_inv_def clear_def by auto

lemma inv_maxSize: "history_inv h \<Longrightarrow> 0 \<le> maxSize h"
  unfolding history_inv_def by linarith

lemma call_method_inv: "history_inv h \<Longrightarrow> history_inv (fst (call_method c h))"
  by (cases c) (auto simp: push_inv undo_inv redo_inv clear_inv init_def inv_maxSize)

lemma call_method_maxSize: "maxSize (fst (call_method c h)) = maxSize h"
  by (cases c) (auto simp: push_fields undo_def redo_def clear_def init_def Let_def)

lemma fst_run_Cons:
  "fst (run (c # cs) h) = fst (run cs (fst (call_method c h)))"
  by (simp split: prod.splits)

lemma run_inv: "history_inv h \<Longrightarrow> history_inv (fst (run cs h))"
proof (induction cs arbitrary: h)
  case Nil
  then show ?case by simp
next
  case (Cons c cs)
  from Cons.IH [OF call_method_inv [OF Cons.prems, of c]]
  show ?case by (simp only: fst_run_Cons)
qed

lemma run_maxSize: "maxSize (fst (run cs h)) = maxSize h"
proof (induction cs arbitrary: h)
  case Nil
  then show ?case by simp
next
  case (Cons c cs)
  have "maxSize (fst (run cs (fst (call_method c h)))) = maxSize h"
    by (simp add: Cons.IH call_method_maxSize)
  then show ?case by (simp only: fst_run_Cons)
qed

lemma init_inv: "history_inv initStores_history"
  by (simp add: history_inv_def initStores_history_def)

text \<open>
  C1. Whatever calls of \<^verbatim>\<open>push\<close>, \<^verbatim>\<open>undo\<close>, \<^verbatim>\<open>redo\<close>, \<^verbatim>\<open>clear\<close> and \<^verbatim>\<open>init\<close> are made on
  the history store from its initial state, afterwards the index lies between \<open>-1\<close> and the
  last position of the stack, is \<open>-1\<close> exactly when the stack is empty, \<^verbatim>\<open>canUndo\<close> says that
  the index is positive, \<^verbatim>\<open>canRedo\<close> that it is below the last position, and the stack
  holds at most \<^verbatim>\<open>maxSize\<close> entries, \<^verbatim>\<open>maxSize\<close> being 10.
\<close>

theorem history_invariant:
  "let h = fst (run cs initStores_history) in
     - 1 \<le> index h \<and> index h < int (length (stack h)) \<and>
     (index h = - 1 \<longleftrightarrow> stack h = []) \<and>
     (canUndo h \<longleftrightarrow> index h > 0) \<and>
     (canRedo h \<longleftrightarrow> index h < int (length (stack h)) - 1) \<and>
     int (length (stack h)) \<le> maxSize h \<and> maxSize h = 10"
proof -
  have "history_inv (fst (run cs initStores_history))"
    by (rule run_inv [OF init_inv])
  moreover have "maxSize (fst (run cs initStores_history)) = 10"
    by (simp add: run_maxSize initStores_history_def)
  ultimately show ?thesis
    by (simp add: history_inv_def canUndo_def canRedo_def Let_def)
qed

theorem history_invariant_witness:
  "let h = fst (run [Init never (Obj []), Push always (Num 1), Push never (Num 2), Undo never, Undo always,
                   Redo never, Push always Null]
                  initStores_history) in
     - 1 \<le> index h \<and> index h < int (length (stack h)) \<and>
     (index h = - 1 \<longleftrightarrow> stack h = []) \<and>
     (canUndo h \<longleftrightarrow> index h > 0) \<and>
     (canRedo h \<longleftrightarrow> index h < int (length (stack h)) - 1) \<and>
     int (length (stack h)) \<le> maxSize h \<and> maxSize h = 10"
  by (rule history_invariant)

lemma fst_run_append:
  "fst (run (cs @ ds) h) = fst (run ds (fst (run cs h)))"
proof (induction cs arbitrary: h)
  case Nil
  then show ?case by simp
next
  case (Cons c cs)
  have "fst (run ((c # cs) @ ds) h) = fst (run (cs @ ds) (fst (call_method c h)))"
    by (simp only: append_Cons fst_run_Cons)
  then show ?case by (simp only: Cons.IH fst_run_Cons)
qed

lemma reachable_inv: "history_inv (fst (run cs initStores_history))"
  by (rule run_inv [OF init_inv])

lemma reachable_maxSize: "maxSize (fst (run cs initStores_history)) = 10"
  by (simp add: run_maxSize initStores_history_def)

lemma init_state:
  assumes "1 \<le> maxSize h"
  shows "init native s h = h\<lparr>stack := [deepClone native [] s], index := 0\<rparr>"
  using assms by (simp add: init_def clear_def push_def Let_def)

text \<open>
  The truncation of the redo branch, for any documents and whatever \<^verbatim>\<open>structuredClone\<close>
  does in each call: after \<^verbatim>\<open>init(s0); push(s1); undo(); push(s2)\<close> the stack holds the
  snapshots of \<open>s0\<close> and \<open>s2\<close> and \<^verbatim>\<open>canRedo\<close> is false.
\<close>

lemma redo_branch_truncated:
  "let h = fst (run (cs @ [Init n0 s0, Push n1 s1, Undo n, Push n2 s2]) initStores_history) in
     \<not> canRedo h \<and> index h = 1 \<and> stack h = [deepClone n0 [] s0, deepClone n2 [] s2]"
proof -
  define h0 where "h0 = fst (run cs initStores_history)"
  have m: "maxSize h0 = 10" unfolding h0_def by (rule reachable_maxSize)
  define h1 where "h1 = init n0 s0 h0"
  have h1: "h1 = h0\<lparr>stack := [deepClone n0 [] s0], index := 0\<rparr>"
    unfolding h1_def using m by (simp add: init_state)
  define h2 where "h2 = push n1 s1 h1"
  have h2: "h2 = h0\<lparr>stack := [deepClone n0 [] s0, deepClone n1 [] s1], index := 1\<rparr>"
    unfolding h2_def h1 using m by (simp add: push_def Let_def)
  define h3 where "h3 = fst (undo n h2)"
  have h3: "h3 = h0\<lparr>stack := [deepClone n0 [] s0, deepClone n1 [] s1], index := 0\<rparr>"
    unfolding h3_def h2 by (simp add: undo_def canUndo_def Let_def)
  define h4 where "h4 = push n2 s2 h3"
  have h4: "h4 = h0\<lparr>stack := [deepClone n0 [] s0, deepClone n2 [] s2], index := 1\<rparr>"
    unfolding h4_def h3 using m by (simp add: push_def slice0_def Let_def)
  have "fst (run (cs @ [Init n0 s0, Push n1 s1, Undo n, Push n2 s2]) initStores_history) = h4"
    unfolding fst_run_append h0_def [symmetric]
    by (simp only: fst_run_Cons) (simp add: h4_def h3_def h2_def h1_def)
  then show ?thesis
    by (simp add: h4 canRedo_def)
qed

text \<open>
  The two entries are structurally equal to \<open>s0\<close> and \<open>s2\<close> when those are documents
  without a property named \<^verbatim>\<open>__proto__\<close>.
\<close>

lemma redo_branch_entries:
  assumes "json_like s0" "proto_free s0" "json_like s2" "proto_free s2"
  shows "let h = fst (run (cs @ [Init n0 s0, Push n1 s1, Undo n, Push n2 s2]) initStores_history) in
           length (stack h) = 2 \<and> deepEqual (stack h ! 0) s0 \<and> deepEqual (stack h ! 1) s2"
  using redo_branch_truncated [of cs n0 s0 n1 s1 n n2 s2] assms
  by (simp add: Let_def deepClone_json deepEqual_refl)

text \<open>
  C3. The claim fails for a document with a property named \<^verbatim>\<open>__proto__\<close>, which
  \<^verbatim>\<open>JSON.parse\<close> yields for the text \<^verbatim>\<open>{"__proto__": 5}\<close>, in a run where \<^verbatim>\<open>deepClone\<close>
  takes its hand-written copy: after \<^verbatim>\<open>init(s0); push(s1); undo(); push(s2)\<close> the redo
  branch is gone and two entries are left, but the first is \<^verbatim>\<open>{}\<close>, which \<^verbatim>\<open>deepEqual\<close>
  does not find equal to \<open>s0\<close>. Where \<^verbatim>\<open>structuredClone\<close> makes the snapshot, the entry is
  equal to \<open>s0\<close>.
\<close>

theorem redo_branch_snapshot_differs:
  "let s0 = Obj [(''__proto__'', Num 5)];
       s1 = Obj [(''name'', Str ''B'')];
       s2 = Obj [(''name'', Str ''C'')];
       h = fst (run [Init never s0, Push never s1, Undo never, Push never s2] initStores_history);
       h' = fst (run [Init always s0, Push always s1, Undo always, Push always s2] initStores_history)
   in json_like s0 \<and> \<not> canRedo h \<and> index h = 1 \<and> stack h = [Obj [], s2] \<and>
      \<not> deepEqual (stack h ! 0) s0 \<and>
      stack h' = [s0, s2] \<and> deepEqual (stack h' ! 0) s0"
  by code_simp

text \<open>
  What \<^verbatim>\<open>undo\<close> and \<^verbatim>\<open>redo\<close> do in every state the store can reach: when \<^verbatim>\<open>canUndo\<close> is
  false, \<^verbatim>\<open>undo\<close> returns \<^verbatim>\<open>null\<close> and leaves the store as it is; when it is true, \<^verbatim>\<open>undo\<close>
  decrements the index, which stays a position of the stack, changes nothing else, and
  returns what \<^verbatim>\<open>deepClone\<close> makes of the entry at the new index. The same holds for
  \<^verbatim>\<open>redo\<close> with \<^verbatim>\<open>canRedo\<close> and the index incremented. Neither call throws.
\<close>

lemma undo_redo_steps:
  "let h = fst (run cs initStores_history) in
     (if canUndo h
      then fst (undo native h) = h\<lparr>index := index h - 1\<rparr> \<and>
           0 \<le> index h - 1 \<and> index h - 1 < int (length (stack h)) \<and>
           snd (undo native h) = deepClone native [] (stack h ! nat (index h - 1))
      else undo native h = (h, Null)) \<and>
     (if canRedo h
      then fst (redo native h) = h\<lparr>index := index h + 1\<rparr> \<and>
           0 \<le> index h + 1 \<and> index h + 1 < int (length (stack h)) \<and>
           snd (redo native h) = deepClone native [] (stack h ! nat (index h + 1))
      else redo native h = (h, Null))"
proof -
  define h where "h = fst (run cs initStores_history)"
  have inv: "history_inv h" unfolding h_def by (rule reachable_inv)
  have u: "fst (undo native h) = h\<lparr>index := index h - 1\<rparr> \<and>
           0 \<le> index h - 1 \<and> index h - 1 < int (length (stack h)) \<and>
           snd (undo native h) = deepClone native [] (stack h ! nat (index h - 1))" if "canUndo h"
    using that inv by (simp add: undo_def canUndo_def history_inv_def at_index_def Let_def)
  have r: "fst (redo native h) = h\<lparr>index := index h + 1\<rparr> \<and>
           0 \<le> index h + 1 \<and> index h + 1 < int (length (stack h)) \<and>
           snd (redo native h) = deepClone native [] (stack h ! nat (index h + 1))" if "canRedo h"
    using that inv by (simp add: redo_def canRedo_def history_inv_def at_index_def Let_def)
  have "undo native h = (h, Null)" if "\<not> canUndo h"
    using that by (simp add: undo_def)
  moreover have "redo native h = (h, Null)" if "\<not> canRedo h"
    using that by (simp add: redo_def)
  ultimately show ?thesis
    unfolding h_def [symmetric] Let_def using u r by presburger
qed

text \<open>
  C6. The claim fails where the entry at the new index has a property named
  \<^verbatim>\<open>__proto__\<close> and \<^verbatim>\<open>deepClone\<close> takes its hand-written copy in \<^verbatim>\<open>undo\<close> or \<^verbatim>\<open>redo\<close>. The
  entry is there after \<^verbatim>\<open>init\<close> or \<^verbatim>\<open>push\<close> of the document that \<^verbatim>\<open>JSON.parse\<close> yields
  for \<^verbatim>\<open>{"__proto__": 5}\<close>, when \<^verbatim>\<open>structuredClone\<close> made the snapshot. Then \<^verbatim>\<open>undo\<close> moves
  the index and leaves the stack as it is, but what it returns is \<^verbatim>\<open>{}\<close>, which is not a
  copy of the entry: \<^verbatim>\<open>deepEqual\<close> tells them apart. So for \<^verbatim>\<open>redo\<close>.
\<close>

theorem undo_redo_copy_differs:
  "let s0 = Obj [(''__proto__'', Num 5)];
       h = fst (run [Init always s0, Push always (Obj [])] initStores_history);
       u = undo never h;
       h' = fst (run [Init always (Obj []), Push always s0, Undo always] initStores_history);
       r = redo never h'
   in json_like s0 \<and>
      canUndo h \<and> stack h ! 0 = s0 \<and>
      index (fst u) = index h - 1 \<and> stack (fst u) = stack h \<and>
      snd u = Obj [] \<and> \<not> deepEqual (snd u) (stack h ! 0) \<and>
      canRedo h' \<and> stack h' ! 1 = s0 \<and>
      index (fst r) = index h' + 1 \<and> stack (fst r) = stack h' \<and>
      snd r = Obj [] \<and> \<not> deepEqual (snd r) (stack h' ! 1)"
  by code_simp

lemma call_method_ur_eq: "call_method_ur c h = call_method c h"
  by (cases c)
    (simp_all add: push_ur_def push_def undo_ur_def undo_def redo_ur_def redo_def
      canUndo_ur_def canUndo_def canRedo_ur_def canRedo_def clear_ur_def clear_def
      init_ur_def init_def)

text \<open>
  C10. The history store of \<^verbatim>\<open>store.js\<close> (\<^verbatim>\<open>initStores\<close>) and the one of
  \<^verbatim>\<open>undo_redo.js\<close> (\<^verbatim>\<open>initHistoryStore\<close>) agree: the same calls from the initial state
  leave the same stack, index and \<^verbatim>\<open>maxSize\<close>, return the same values, and give the same
  \<^verbatim>\<open>canUndo\<close> and \<^verbatim>\<open>canRedo\<close>.
\<close>

theorem history_stores_agree:
  "run_ur cs initHistoryStore = run cs initStores_history \<and>
   canUndo_ur (fst (run_ur cs initHistoryStore)) = canUndo (fst (run cs initStores_history)) \<and>
   canRedo_ur (fst (run_ur cs initHistoryStore)) = canRedo (fst (run cs initStores_history))"
proof -
  have "run_ur cs h = run cs h" for h
    by (induction cs arbitrary: h) (simp_all add: call_method_ur_eq)
  moreover have "initHistoryStore = initStores_history"
    by (simp add: initHistoryStore_def initStores_history_def)
  ultimately show ?thesis
    by (simp add: canUndo_ur_def canUndo_def canRedo_ur_def canRedo_def)
qed

theorem history_stores_agree_witness:
  "run_ur [Init always (Num 0), Push never (Num 1), Undo never, Redo always, Clear] initHistoryStore =
     run [Init always (Num 0), Push never (Num 1), Undo never, Redo always, Clear] initStores_history \<and>
   canUndo_ur (fst (run_ur [Init always (Num 0), Push never (Num 1), Undo never, Redo always, Clear] initHistoryStore)) =
     canUndo (fst (run [Init always (Num 0), Push never (Num 1), Undo never, Redo always, Clear] initStores_history)) \<and>
   canRedo_ur (fst (run_ur [Init always (Num 0), Push never (Num 1), Undo never, Redo always, Clear] initHistoryStore)) =
     canRedo (fst (run [Init always (Num 0), Push never (Num 1), Undo never, Redo always, Clear] initStores_history))"
  by (rule history_stores_agree)









subsection \<open>Reading and writing by path\<close>


lemma plain_lookup: "list_all (\<lambda>p. plain (snd p)) ps \<Longrightarrow> plain (lookup ps k)"
proof (cases "k \<in> set (map fst ps)")
  case True
  assume "list_all (\<lambda>p. plain (snd p)) ps"
  with lookup_member [OF True] show ?thesis by (auto simp: list_all_iff)
next
  case False
  then have "map_of ps k = None" by (simp add: map_of_eq_None_iff)
  then show ?thesis by (simp add: lookup_def)
qed

lemma plain_own_prop: "plain c \<Longrightarrow> plain (own_prop c k)"
  by (cases c) (auto simp: plain_lookup split: option.splits)

text \<open>
  In a document whose objects have their ordinary prototypes a read returns; under a key
  that nothing is inherited under it returns the own property, or \<^verbatim>\<open>undefined\<close>.
\<close>

lemma js_get_plain:
  assumes "plain c" "c \<noteq> Null" "c \<noteq> Undefined"
  shows "\<exists>r. js_get pf c k = Inr r"
  using assms by (cases c) (simp_all add: js_get_def)










lemma is_object_cases:
  "is_object v \<longleftrightarrow> (\<exists>ps. v = Obj ps) \<or> (\<exists>ps. v = Reparented ps) \<or> (\<exists>n ps. v = Arr n ps)"
  by (cases v) (simp_all add: is_object_def)

lemma is_object_not_null: "is_object v \<Longrightarrow> v \<noteq> Null \<and> v \<noteq> Undefined"
  by (cases v) (simp_all add: is_object_def)

lemma is_object_r_Val [simp]: "is_object_r (Val v) = is_object v"
  by (simp add: is_object_r_def is_object_def)

lemma lookup_update [simp]: "lookup (AList.update k x ps) k = x"
  by (simp add: lookup_def update_conv')

lemma fresh_object [simp]: "is_object (fresh nk)" "plain (fresh nk)"
  by (simp_all add: fresh_def is_object_def)

text \<open>
  After an assignment under a key other than \<^verbatim>\<open>__proto__\<close> the key is an own property; it
  holds the value assigned, unless that was converted to a length.
\<close>

lemma to_length_number: "to_length (Num m) = Inr n \<Longrightarrow> int n = m"
  by (simp split: if_splits)

lemma js_set_object:
  assumes "js_set c k x = Inr c'" and "k \<noteq> ''__proto__''"
  shows "is_object c" and "is_object c'"
  using assms
  by (cases c; auto simp: runs_setter_def is_object_def split: if_splits option.splits sum.splits)+

lemma js_set_own:
  assumes "js_set c k x = Inr c'" and "k \<noteq> ''__proto__''"
    and "k = ''length'' \<longrightarrow> is_number x"
  shows "has_own c' k" and "own_prop c' k = x"
proof -
  show "has_own c' k"
    using assms(1,2)
    by (cases c) (auto simp: runs_setter_def dom_update split: if_splits option.splits sum.splits)
  show "own_prop c' k = x"
  proof (cases "isArray c \<and> k = ''length''")
    case True
    then obtain n ps where c: "c = Arr n ps" and k: "k = ''length''" by (cases c) auto
    with assms(3) obtain m where x: "x = Num m" by (cases x) auto
    from assms(1) c k x obtain l where "to_length (Num m) = Inr l" "c' = Arr l (filter (keeps l) ps)"
      by (auto split: sum.splits)
    with to_length_number [of m l] k x show ?thesis by simp
  next
    case False
    with assms(1,2) show ?thesis
      by (cases c) (auto simp: runs_setter_def split: if_splits option.splits)
  qed
qed

lemma js_set_get:
  assumes "js_set c k x = Inr c'" and "k \<noteq> ''__proto__''"
    and "k = ''length'' \<longrightarrow> is_number x"
  shows "js_get pf c' k = Inr (Val x)"
  using js_set_own [OF assms] by (simp add: js_get_def)

text \<open>An object that a read returns from a value of the document is an own property.\<close>

lemma member_object: "k \<noteq> ''__proto__'' \<Longrightarrow> \<not> is_object_r (member pf kd k)"
  by (simp add: member_def is_object_r_def is_object_def)

lemma js_get_object:
  assumes "js_get pf c k = Inr (Val x)" and "is_object x"
  shows "has_own c k" and "own_prop c k = x" and "is_object c"
    and "\<not> (isArray c \<and> k = ''length'')"
proof -
  have m: "member pf kd k \<noteq> Val x" for kd
    using assms(2) by (auto simp: member_def is_object_def)
  from assms(1) m show own: "has_own c k"
    by (cases c) (auto simp: js_get_def split: if_splits)
  with assms(1) show x: "own_prop c k = x" by (simp add: js_get_def)
  from own x assms(2) show "is_object c"
    by (cases c) (auto simp: is_object_def split: if_splits option.splits)
  from x assms(2) show "\<not> (isArray c \<and> k = ''length'')"
    by (cases c) (auto simp: is_object_def)
qed

lemma get_put_child:
  assumes "is_object c" and "\<not> (isArray c \<and> key = ''length'')"
  shows "js_get pf (put_child c key child) key = Inr (Val child)"
  using assms by (cases c) (auto simp: is_object_def js_get_def dom_update)

lemma checks_no_return:
  "check_primitive pf True pre cur key nk \<noteq> Returns c w"
  "check_missing pf True pre cur key nk \<noteq> Returns c w"
  by (auto simp: check_primitive_def check_missing_def split: sum.splits)

text \<open>
  With no segment \<^verbatim>\<open>__proto__\<close>, the loop returns only from an object or array: on a
  primitive the first assignment throws.
\<close>

lemma checks_object:
  assumes "check_primitive pf True pre cur key nk = Goes c1 w1"
    and "check_missing pf True pre c1 key nk = Goes c2 w2"
    and "js_get pf c2 key = Inr (Val next)"
    and "key \<noteq> ''__proto__''"
  shows "is_object cur"
proof (rule ccontr)
  assume n: "\<not> is_object cur"
  have no_set: "js_set c key x \<noteq> Inr c'" if "\<not> is_object c" for c x c'
    using that js_set_object(1) [OF _ assms(4)] by blast
  from assms(1) no_set [OF n] have c1: "c1 = cur"
    by (auto simp: check_primitive_def split: sum.splits if_splits)
  from assms(2) no_set [OF n] c1 have c2: "c2 = cur"
    by (auto simp: check_missing_def split: sum.splits if_splits)
  from assms(1) no_set [OF n] assms(3) c2 have t: "next = Undefined \<or> next = Null \<or> typeof next = ''object''"
    by (auto simp: check_primitive_def split: sum.splits if_splits)
  from assms(2) no_set [OF n] assms(3) c1 c2 have "next \<noteq> Undefined" "next \<noteq> Null"
    by (auto simp: check_missing_def split: sum.splits if_splits)
  with t have "is_object next" by (simp add: is_object_def)
  from js_get_object(3) [OF assms(3) [unfolded c2] this] n show False by simp
qed

lemma set_loop_object:
  assumes "set_loop pf True pre cur key rest v = Inr (d', w)"
    and "''__proto__'' \<notin> set (key # rest)"
  shows "is_object cur"
proof (cases rest)
  case Nil
  with assms have "js_set cur key v = Inr d'" "key \<noteq> ''__proto__''"
    by (auto split: sum.splits)
  then show ?thesis by (rule js_set_object(1))
next
  case (Cons nk rest')
  with assms(1) obtain c1 w1 c2 w2 "next" where
    "check_primitive pf True pre cur key nk = Goes c1 w1"
    "check_missing pf True pre c1 key nk = Goes c2 w2"
    "js_get pf c2 key = Inr (Val next)"
    by (auto simp: checks_no_return split: outcome.splits sum.splits prod.splits reached.splits)
  moreover from assms(2) have "key \<noteq> ''__proto__''" by auto
  ultimately show ?thesis by (rule checks_object)
qed

lemma set_loop_get:
  assumes "set_loop pf True pre cur key rest v = Inr (d', w)"
    and "''__proto__'' \<notin> set (key # rest)"
    and "last (key # rest) = ''length'' \<longrightarrow> is_number v"
  shows "get_loop pf (Val d') (key # rest) = Inr (Val v)"
  using assms
proof (induction rest arbitrary: pre cur key d' w)
  case Nil
  then have s: "js_set cur key v = Inr d'" and k: "key \<noteq> ''__proto__''"
    and l: "key = ''length'' \<longrightarrow> is_number v"
    by (auto split: sum.splits)
  from js_set_object(2) [OF s k] have "d' \<noteq> Null" "d' \<noteq> Undefined"
    by (auto dest: is_object_not_null)
  with js_set_get [OF s k l] show ?case by simp
next
  case (Cons nk rest)
  from Cons.prems(2) have k: "key \<noteq> ''__proto__''" and r: "''__proto__'' \<notin> set (nk # rest)"
    by auto
  from Cons.prems(3) have l: "last (nk # rest) = ''length'' \<longrightarrow> is_number v" by simp
  from Cons.prems(1) obtain c1 w1 c2 w2 "next" child w3 where
    p: "check_primitive pf True pre cur key nk = Goes c1 w1" and
    m: "check_missing pf True pre c1 key nk = Goes c2 w2" and
    g: "js_get pf c2 key = Inr (Val next)" and
    rec: "set_loop pf True (pre @ [key]) next nk rest v = Inr (child, w3)" and
    d': "d' = put_child c2 key child"
    by (auto simp: checks_no_return split: outcome.splits sum.splits prod.splits reached.splits)
  from set_loop_object [OF rec r] have "is_object next" .
  note own = js_get_object [OF g this]
  have "js_get pf d' key = Inr (Val child)"
    unfolding d' by (rule get_put_child [OF own(3) own(4)])
  moreover from own(3) have "d' \<noteq> Null" "d' \<noteq> Undefined"
    unfolding d' by (cases c2; simp add: is_object_def)+
  ultimately have "get_loop pf (Val d') (key # nk # rest) = get_loop pf (Val child) (nk # rest)"
    by simp
  with Cons.IH [OF rec r l] show ?case by simp
qed

lemma split_dot_nonempty: "split_dot s \<noteq> []"
  by (induction s) (auto split: list.splits)

lemma path_keys_nonempty: "path_keys p = hd (path_keys p) # tl (path_keys p)"
  by (simp add: path_keys_def split_dot_nonempty)

lemma js_set_total:
  assumes "is_object c" "plain c" and "k \<noteq> ''length''" "k \<noteq> ''__proto__''"
  shows "\<exists>c'. js_set c k x = Inr c'"
  using assms by (cases c) (auto simp: is_object_def runs_setter_def split: option.splits)

lemma checks_total:
  assumes "is_object cur" "plain cur" and "key \<noteq> ''length''" "key \<noteq> ''__proto__''"
  shows "\<exists>c1 w1 c2 w2 next.
           check_primitive pf True pre cur key nk = Goes c1 w1 \<and>
           check_missing pf True pre c1 key nk = Goes c2 w2 \<and>
           js_get pf c2 key = Inr (Val next) \<and> is_object next \<and> plain next"
proof -
  from assms(1) have nn: "cur \<noteq> Null" "cur \<noteq> Undefined"
    by (auto dest: is_object_not_null)
  from js_get_plain [OF assms(2) nn] obtain r where g: "js_get pf cur key = Inr r"
    by blast
  from js_set_total [OF assms] obtain c' where s: "js_set cur key (fresh nk) = Inr c'"
    by blast
  from assms(3) have "key = ''length'' \<longrightarrow> is_number (fresh nk)" by simp
  note g' = js_set_get [OF s assms(4) this, of pf]
  have f: "fresh nk \<noteq> Undefined" "fresh nk \<noteq> Null"
    by (simp_all add: fresh_def)
  consider (prim) "r \<noteq> Val Undefined" "r \<noteq> Val Null" "typeof_r r \<noteq> ''object''"
    | (none) "r = Val Undefined \<or> r = Val Null"
    | (obj) "r \<noteq> Val Undefined" "r \<noteq> Val Null" "typeof_r r = ''object''"
    by blast
  then show ?thesis
  proof cases
    case prim
    with g s g' f have "check_primitive pf True pre cur key nk = Goes c' [warn_overwriting (pre @ [key])]"
      and "check_missing pf True pre c' key nk = Goes c' []"
      by (simp_all add: check_primitive_def check_missing_def)
    with g' show ?thesis by auto
  next
    case none
    with g s g' f have "check_primitive pf True pre cur key nk = Goes cur []"
      and "check_missing pf True pre cur key nk = Goes c' []"
      by (auto simp: check_primitive_def check_missing_def)
    with g' show ?thesis by auto
  next
    case obj
    then have o: "is_object_r r" by (simp add: is_object_r_def)
    have "\<exists>x. r = Val x"
    proof (cases "has_own cur key")
      case True
      with g show ?thesis by (auto simp: js_get_def)
    next
      case False
      with g have "\<exists>kd. r = member pf kd key"
        by (cases cur) (auto simp: js_get_def)
      with o member_object [OF assms(4)] show ?thesis by auto
    qed
    then obtain x where x: "r = Val x" by blast
    with o have ox: "is_object x" by simp
    from js_get_object(2) [OF g [unfolded x] ox] plain_own_prop [OF assms(2), of key]
    have "plain x" by simp
    moreover from g obj x have "check_primitive pf True pre cur key nk = Goes cur []"
      and "check_missing pf True pre cur key nk = Goes cur []"
      by (auto simp: check_primitive_def check_missing_def)
    ultimately show ?thesis using g x ox by auto
  qed
qed

lemma set_loop_total:
  assumes "is_object cur" "plain cur"
    and "''length'' \<notin> set (key # rest)" "''__proto__'' \<notin> set (key # rest)"
  shows "\<exists>d' w. set_loop pf True pre cur key rest v = Inr (d', w)"
  using assms
proof (induction rest arbitrary: pre cur key)
  case Nil
  then have "key \<noteq> ''length''" "key \<noteq> ''__proto__''" by simp_all
  from js_set_total [OF Nil(1) Nil(2) this, of v] obtain c' where "js_set cur key v = Inr c'"
    by blast
  then show ?case by simp
next
  case (Cons nk rest)
  then have k: "key \<noteq> ''length''" "key \<noteq> ''__proto__''"
    and r: "''length'' \<notin> set (nk # rest)" "''__proto__'' \<notin> set (nk # rest)"
    by auto
  from checks_total [OF Cons.prems(1) Cons.prems(2) k, of pf pre nk]
  obtain c1 w1 c2 w2 "next" where
    p: "check_primitive pf True pre cur key nk = Goes c1 w1" and
    m: "check_missing pf True pre c1 key nk = Goes c2 w2" and
    g: "js_get pf c2 key = Inr (Val next)" and n: "is_object next" "plain next"
    by blast
  from Cons.IH [OF n r, of "pre @ [key]"] obtain child w3 where
    "set_loop pf True (pre @ [key]) next nk rest v = Inr (child, w3)"
    by blast
  with p m g show ?case by simp
qed

text \<open>
  C2, as stated, for every document, path and value: it fails. On the document
  \<^verbatim>\<open>{name: "A", tags: ["x"]}\<close>, \<^verbatim>\<open>setByPath(doc, "tags.length", -1)\<close> assigns \<open>-1\<close> to the
  length of an array, which throws \<^verbatim>\<open>RangeError\<close>; nothing is set. With \<^verbatim>\<open>null\<close> for
  \<open>-1\<close> the call returns, the array is emptied, and \<^verbatim>\<open>getByPath\<close> gives the length 0. On
  the document \<^verbatim>\<open>null\<close> any assignment throws \<^verbatim>\<open>TypeError\<close>. And
  \<^verbatim>\<open>setByPath({}, "__proto__", 5)\<close> returns with nothing set, since the assignment runs the
  inherited setter, which ignores a number: \<^verbatim>\<open>getByPath\<close> then gives the prototype of the
  object.
\<close>

theorem set_get_roundtrip_counterexample:
  "setByPath es2023 (Obj [(''name'', Str ''A''), (''tags'', Arr 1 [(''0'', Str ''x'')])])
     ''tags.length'' (Num (- 1)) True = Inl RangeError \<and>
   setByPath es2023 (Obj [(''name'', Str ''A''), (''tags'', Arr 1 [(''0'', Str ''x'')])])
     ''tags.length'' Null True = Inr (Obj [(''name'', Str ''A''), (''tags'', Arr 0 [])], []) \<and>
   getByPath es2023 (Obj [(''name'', Str ''A''), (''tags'', Arr 0 [])]) ''tags.length''
     = Inr (Val (Num 0)) \<and>
   setByPath es2023 Null ''name'' (Str ''A'') True = Inl TypeError \<and>
   setByPath es2023 (Obj []) ''__proto__'' (Num 5) True = Inr (Obj [], []) \<and>
   getByPath es2023 (Obj []) ''__proto__'' = Inr (Proto OfObject)"
  by code_simp

text \<open>
  C2, amended. Let the objects of the document \<open>d\<close> have their ordinary prototypes, let
  no segment of the path \<open>p\<close> be \<^verbatim>\<open>__proto__\<close>, and let \<open>v\<close> be a number if the last
  segment is \<^verbatim>\<open>length\<close>. Whenever \<^verbatim>\<open>setByPath(d, p, v)\<close> with \<^verbatim>\<open>autoCreate\<close> enabled returns,
  \<^verbatim>\<open>getByPath\<close> on the document it leaves returns \<open>v\<close>. And it does return whenever \<open>d\<close>
  is an object or an array and no segment of \<open>p\<close> is \<^verbatim>\<open>length\<close>.
\<close>

theorem set_get_roundtrip:
  assumes "plain d" and "''__proto__'' \<notin> set (path_keys p)"
    and "last (path_keys p) = ''length'' \<longrightarrow> is_number v"
  shows "(setByPath pf d p v True = Inr (d', w) \<longrightarrow> getByPath pf d' p = Inr (Val v)) \<and>
         (is_object d \<and> ''length'' \<notin> set (path_keys p) \<longrightarrow>
            (\<exists>d' w. setByPath pf d p v True = Inr (d', w)))"
proof (intro conjI impI)
  from assms(2) have np: "''__proto__'' \<notin> set (hd (path_keys p) # tl (path_keys p))"
    by (metis path_keys_nonempty)
  from assms(3) have nl: "last (hd (path_keys p) # tl (path_keys p)) = ''length'' \<longrightarrow> is_number v"
    by (metis path_keys_nonempty)
  {
    assume "setByPath pf d p v True = Inr (d', w)"
    then have "get_loop pf (Val d') (hd (path_keys p) # tl (path_keys p)) = Inr (Val v)"
      unfolding setByPath_def using np nl by (rule set_loop_get)
    then show "getByPath pf d' p = Inr (Val v)"
      unfolding getByPath_def by (metis path_keys_nonempty)
  next
    assume a: "is_object d \<and> ''length'' \<notin> set (path_keys p)"
    then have len: "''length'' \<notin> set (hd (path_keys p) # tl (path_keys p))"
      by (metis path_keys_nonempty)
    from a have "is_object d" by simp
    from set_loop_total [OF this assms(1) len np]
    show "\<exists>d' w. setByPath pf d p v True = Inr (d', w)"
      unfolding setByPath_def .
  }
qed

theorem set_get_roundtrip_witness:
  "plain (Obj [(''name'', Str ''A''), (''tags'', Arr 1 [(''0'', Str ''x'')])]) \<and>
   ''__proto__'' \<notin> set (path_keys ''tags[1]'') \<and>
   last (path_keys ''tags[1]'') \<noteq> ''length'' \<and>
   setByPath es2023 (Obj [(''name'', Str ''A''), (''tags'', Arr 1 [(''0'', Str ''x'')])]) ''tags[1]''
     (Str ''y'') True
     = Inr (Obj [(''name'', Str ''A''), (''tags'', Arr 2 [(''0'', Str ''x''), (''1'', Str ''y'')])], []) \<and>
   getByPath es2023 (Obj [(''name'', Str ''A''), (''tags'', Arr 2 [(''0'', Str ''x''), (''1'', Str ''y'')])])
     ''tags[1]''
     = Inr (Val (Str ''y'')) \<and>
   is_object (Obj [(''name'', Str ''A''), (''tags'', Arr 1 [(''0'', Str ''x'')])]) \<and>
   ''length'' \<notin> set (path_keys ''tags[1]'') \<and>
   (\<exists>d' w. setByPath es2023 (Obj [(''name'', Str ''A''), (''tags'', Arr 1 [(''0'', Str ''x'')])])
      ''tags[1]'' (Str ''y'') True = Inr (d', w))"
proof -
  have pl: "plain (Obj [(''name'', Str ''A''), (''tags'', Arr 1 [(''0'', Str ''x'')])])" by simp
  have np: "''__proto__'' \<notin> set (path_keys ''tags[1]'')" by code_simp
  have nl: "last (path_keys ''tags[1]'') \<noteq> ''length''" by code_simp
  then have nl': "last (path_keys ''tags[1]'') = ''length'' \<longrightarrow> is_number (Str ''y'')" by simp
  have a: "setByPath es2023 (Obj [(''name'', Str ''A''), (''tags'', Arr 1 [(''0'', Str ''x'')])]) ''tags[1]''
     (Str ''y'') True
     = Inr (Obj [(''name'', Str ''A''), (''tags'', Arr 2 [(''0'', Str ''x''), (''1'', Str ''y'')])], [])"
    by code_simp
  have b: "is_object (Obj [(''name'', Str ''A''), (''tags'', Arr 1 [(''0'', Str ''x'')])])"
    by (simp add: is_object_def)
  have c: "''length'' \<notin> set (path_keys ''tags[1]'')" by code_simp
  from set_get_roundtrip [OF pl np nl', of es2023] pl np nl a b c
  show ?thesis by blast
qed

lemma update_lookup_same:
  assumes "k \<in> set (map fst ps)"
  shows "AList.update k (lookup ps k) ps = ps"
proof -
  from assms obtain x where "map_of ps k = Some x"
    by (metis map_of_eq_None_iff not_Some_eq set_map)
  then show ?thesis by (simp add: lookup_def update_triv)
qed

lemma put_child_same:
  assumes "js_get pf d k = Inr (Val x)" and "is_object x"
  shows "put_child d k x = d"
proof -
  note own = js_get_object [OF assms]
  from own(1) own(2) own(3) own(4) show ?thesis
    by (cases d) (auto simp: is_object_def update_lookup_same simp del: set_map)
qed

lemma checks_abort:
  assumes "js_get pf d k = Inr r" and "\<not> is_object_r r"
  shows "\<exists>w. set_loop pf False pre d k (nk # rest) v = Inr (d, [w])"
proof (cases "r = Val Undefined \<or> r = Val Null")
  case True
  with assms(1) show ?thesis
    by (auto simp: check_primitive_def check_missing_def)
next
  case False
  with assms(2) have "typeof_r r \<noteq> ''object''" by (simp add: is_object_r_def)
  with False assms(1) show ?thesis
    by (auto simp: check_primitive_def)
qed

lemma checks_pass:
  assumes "js_get pf d k = Inr r" and "is_object_r r"
  shows "check_primitive pf False pre d k nk = Goes d []"
    and "check_missing pf False pre d k nk = Goes d []"
proof -
  from assms(2) have "r \<noteq> Val Null" "r \<noteq> Val Undefined" "typeof_r r = ''object''"
    by (auto simp: is_object_r_def)
  with assms(1) show "check_primitive pf False pre d k nk = Goes d []"
    and "check_missing pf False pre d k nk = Goes d []"
    by (simp_all add: check_primitive_def check_missing_def)
qed

lemma get_loop_builtin:
  assumes "get_loop pf r (k # ks) = Inr x" and "is_object_r r"
  shows "\<exists>c. r = Val c \<and> is_object c"
proof (cases r)
  case (Val c)
  with assms(2) show ?thesis by simp
next
  case (Fn f)
  with assms(2) show ?thesis by (simp add: is_object_r_def)
next
  case (Constructor kd)
  with assms(2) show ?thesis by (simp add: is_object_r_def)
next
  case (Proto kd)
  with assms(1) show ?thesis by simp
qed

lemma set_loop_abort:
  assumes "d \<noteq> Null" and "d \<noteq> Undefined" and "get_loop pf (Val d) (k # ks) = Inr x"
    and "\<not> is_object_r x" and "tail \<noteq> []"
  shows "\<exists>w. set_loop pf False pre d k (ks @ tail) v = Inr (d, [w])"
  using assms
proof (induction ks arbitrary: d k pre)
  case Nil
  then have x: "js_get pf d k = Inr x" by (simp split: sum.splits)
  from Nil obtain nk rest where "tail = nk # rest" by (cases tail) auto
  with checks_abort [OF x Nil(4)] show ?case by simp
next
  case (Cons k' ks)
  from Cons.prems(1,2,3) obtain r where r: "js_get pf d k = Inr r"
    and rest: "get_loop pf r (k' # ks) = Inr x"
    by (auto split: sum.splits)
  show ?case
  proof (cases "is_object_r r")
    case False
    from checks_abort [OF r False] show ?thesis by simp
  next
    case True
    from get_loop_builtin [OF rest True] obtain c where c: "r = Val c" "is_object c"
      by blast
    from Cons.IH [OF _ _ rest [unfolded c(1)] Cons.prems(4) Cons.prems(5), of "pre @ [k]"] c(2)
    obtain w where "set_loop pf False (pre @ [k]) c k' (ks @ tail) v = Inr (c, [w])"
      by (auto dest: is_object_not_null)
    with checks_pass [OF r True] r c put_child_same [OF r [unfolded c(1)] c(2)]
    show ?thesis by simp
  qed
qed

text \<open>
  C5, as stated, for every path that does not exist in the document: it fails when only
  the last segment is missing. With \<^verbatim>\<open>autoCreate\<close> disabled,
  \<^verbatim>\<open>setByPath({name: "A"}, "nickname", "B", false)\<close> assigns the property and writes no
  diagnostic: the checks of \<^verbatim>\<open>autoCreate\<close> are made on the segments before the last one
  only.
\<close>

theorem no_autoCreate_unchanged_counterexample:
  "getByPath es2023 (Obj [(''name'', Str ''A'')]) ''nickname'' = Inr (Val Undefined) \<and>
   setByPath es2023 (Obj [(''name'', Str ''A'')]) ''nickname'' (Str ''B'') False =
     Inr (Obj [(''name'', Str ''A''), (''nickname'', Str ''B'')], [])"
  by code_simp

text \<open>
  C5, amended. Let \<open>d\<close> be neither \<^verbatim>\<open>null\<close> nor \<^verbatim>\<open>undefined\<close>, and let some segments of
  \<open>p\<close> before the last one (\<open>k # ks\<close>, with \<open>tail\<close> left over) lead, read one after the
  other as \<^verbatim>\<open>getByPath\<close> reads them, to something that is not an object or array: to
  \<^verbatim>\<open>undefined\<close> for a missing property, to \<^verbatim>\<open>null\<close>, to a primitive, or to a function that
  a value inherits. Then \<^verbatim>\<open>setByPath(d, p, v, false)\<close> returns with the document as it was
  and exactly one diagnostic. (The segment \<^verbatim>\<open>__proto__\<close> leads to an object, the prototype:
  a path through it is not of this kind.)
\<close>

theorem no_autoCreate_unchanged:
  assumes "d \<noteq> Null" and "d \<noteq> Undefined"
    and "path_keys p = k # ks @ tail" and "tail \<noteq> []"
    and "get_loop pf (Val d) (k # ks) = Inr x" and "\<not> is_object_r x"
  shows "\<exists>w. setByPath pf d p v False = Inr (d, [w])"
  unfolding setByPath_def assms(3)
  using set_loop_abort [OF assms(1) assms(2) assms(5) assms(6) assms(4)] by simp

theorem no_autoCreate_unchanged_witness:
  "Obj [(''name'', Str ''A'')] \<noteq> Null \<and> Obj [(''name'', Str ''A'')] \<noteq> Undefined \<and>
   path_keys ''meta.count'' = ''meta'' # [] @ [''count''] \<and> [''count''] \<noteq> [] \<and>
   get_loop es2023 (Val (Obj [(''name'', Str ''A'')])) (''meta'' # []) = Inr (Val Undefined) \<and>
   \<not> is_object_r (Val Undefined) \<and>
   (\<exists>w. setByPath es2023 (Obj [(''name'', Str ''A'')]) ''meta.count'' (Num 3) False =
      Inr (Obj [(''name'', Str ''A'')], [w]))"
proof -
  have a: "Obj [(''name'', Str ''A'')] \<noteq> Null" "Obj [(''name'', Str ''A'')] \<noteq> Undefined" by simp_all
  have b: "path_keys ''meta.count'' = ''meta'' # [] @ [''count'']" by code_simp
  have c: "[''count''] \<noteq> []" by simp
  have d: "get_loop es2023 (Val (Obj [(''name'', Str ''A'')])) (''meta'' # []) = Inr (Val Undefined)"
    by code_simp
  have e: "\<not> is_object_r (Val Undefined)" by (simp add: is_object_def)
  from no_autoCreate_unchanged [OF a b c d e, of "Num 3"] a b c d e show ?thesis by blast
qed

subsection \<open>The dirty flag of the card store\<close>

lemma checkChanges_armed:
  assumes "timer_inv w"
  shows "armed (checkChanges w)" and "recomputed (checkChanges w) = recomputed w"
    and "data (cardStore (checkChanges w)) = data (cardStore w)"
    and "originalData (cardStore (checkChanges w)) = originalData (cardStore w)"
    and "now (checkChanges w) = now w"
  using assms
  by (auto simp: timer_inv_def armed_def checkChanges_def setTimeout_def clearTimeout_def Let_def
      split: option.splits)

lemma armed_inv: "armed w \<Longrightarrow> timer_inv w"
  by (auto simp: armed_def timer_inv_def)

lemma elapse_early:
  assumes "armed w" and "dt < 500"
  shows "elapse dt w = w\<lparr>now := now w + dt\<rparr>"
  using assms by (auto simp: armed_def elapse_def is_due_def Let_def)

lemma elapse_late:
  assumes "armed w" and "500 \<le> dt"
  shows "elapse dt w = (timer_callback w)\<lparr>now := now w + dt, timers := []\<rparr>"
  using assms by (auto simp: armed_def elapse_def is_due_def timer_callback_def Let_def)

lemma elapse_inv:
  assumes "timer_inv w"
  shows "timer_inv (elapse dt w)"
proof (cases "checkChangesTimer (cardStore w)")
  case None
  with assms show ?thesis
    by (simp add: timer_inv_def elapse_def Let_def)
next
  case (Some h)
  with assms obtain due where t: "timers w = [(h, due)]" and h: "h \<noteq> 0" "h < nextHandle w"
    by (auto simp: timer_inv_def)
  show ?thesis
  proof (cases "due \<le> now w + dt")
    case True
    with t have "elapse dt w = timer_callback (w\<lparr>now := now w + dt, timers := []\<rparr>)"
      by (simp add: elapse_def is_due_def Let_def)
    with assms show ?thesis
      by (simp add: timer_inv_def timer_callback_def)
  next
    case False
    with t have "elapse dt w = w\<lparr>now := now w + dt\<rparr>"
      by (simp add: elapse_def is_due_def Let_def)
    with assms Some t show ?thesis
      by (simp add: timer_inv_def)
  qed
qed

lemma edit_inv: "timer_inv w \<Longrightarrow> timer_inv (edit d w)"
  by (auto simp: timer_inv_def edit_def split: option.splits)

lemma happen_inv: "timer_inv w \<Longrightarrow> timer_inv (happen e w)"
  by (cases e) (auto simp: elapse_inv edit_inv checkChanges_armed armed_inv)

lemma fold_happen_inv: "timer_inv w \<Longrightarrow> timer_inv (fold happen es w)"
  by (induction es arbitrary: w) (auto simp: happen_inv)

lemma world0_inv: "timer_inv (world0 native d)"
  by (simp add: timer_inv_def world0_def)


lemma burst_armed:
  assumes "armed w" and "\<forall>p \<in> set gaps. fst p < 500"
  shows "armed (burst gaps w) \<and> recomputed (burst gaps w) = recomputed w \<and>
         originalData (cardStore (burst gaps w)) = originalData (cardStore w)"
  using assms
proof (induction gaps arbitrary: w)
  case Nil
  then show ?case by simp
next
  case (Cons p gaps)
  obtain gap d where p: "p = (gap, d)" by (cases p)
  with Cons.prems have gap: "gap < 500" by simp
  define w1 where "w1 = edit d (elapse gap w)"
  have e: "elapse gap w = w\<lparr>now := now w + gap\<rparr>"
    by (rule elapse_early [OF Cons.prems(1) gap])
  have inv: "timer_inv w1"
    unfolding w1_def by (intro edit_inv elapse_inv armed_inv Cons.prems(1))
  have same: "recomputed w1 = recomputed w" "originalData (cardStore w1) = originalData (cardStore w)"
    unfolding w1_def e by (simp_all add: edit_def)
  from Cons.prems have rest: "\<forall>p \<in> set gaps. fst p < 500" by simp
  from Cons.IH [OF checkChanges_armed(1) [OF inv] rest] checkChanges_armed(2,4) [OF inv] same
  show ?case by (simp add: p w1_def)
qed

text \<open>
  C9. Every call of \<^verbatim>\<open>checkChanges\<close> sets the dirty flag at once. After a call and any
  burst of further calls, each less than 500 ms after the one before (with edits in
  between), exactly one timer is pending, due 500 ms after the last call, and the
  comparison has not run in the meantime; once 500 ms or more pass with no further call
  the comparison has run exactly once, the flag is \<^verbatim>\<open>!deepEqual(data, originalData)\<close>, and
  no timer is left.
\<close>

theorem debounced_dirty_flag:
  assumes "list_all (\<lambda>p. fst p < 500) gaps" and "500 \<le> quiet"
  shows "hasChanges (cardStore (checkChanges w')) \<and>
         (let w = fold happen es (world0 native d0);
              w1 = burst gaps (checkChanges w);
              w2 = elapse quiet w1
          in hasChanges (cardStore w1) \<and>
             (\<exists>h. timers w1 = [(h, now w1 + 500)] \<and> checkChangesTimer (cardStore w1) = Some h) \<and>
             recomputed w1 = recomputed w \<and>
             recomputed w2 = Suc (recomputed w) \<and>
             hasChanges (cardStore w2) = (\<not> deepEqual (data (cardStore w1)) (originalData (cardStore w1))) \<and>
             data (cardStore w2) = data (cardStore w1) \<and>
             timers w2 = [] \<and> checkChangesTimer (cardStore w2) = None)"
proof
  show "hasChanges (cardStore (checkChanges w'))"
    by (simp add: checkChanges_def setTimeout_def clearTimeout_def Let_def split: option.splits)
next
  define w where "w = fold happen es (world0 native d0)"
  define w1 where "w1 = burst gaps (checkChanges w)"
  have inv: "timer_inv w"
    unfolding w_def by (rule fold_happen_inv [OF world0_inv])
  from burst_armed [OF checkChanges_armed(1) [OF inv] assms(1) [unfolded list_all_iff]] checkChanges_armed(2) [OF inv]
  have a: "armed w1" and r: "recomputed w1 = recomputed w"
    by (simp_all add: w1_def)
  have late: "elapse quiet w1 = (timer_callback w1)\<lparr>now := now w1 + quiet, timers := []\<rparr>"
    by (rule elapse_late [OF a assms(2)])
  from a obtain h where h: "timers w1 = [(h, now w1 + 500)]" "checkChangesTimer (cardStore w1) = Some h"
    and dirty: "hasChanges (cardStore w1)"
    by (auto simp: armed_def)
  show "let w = fold happen es (world0 native d0);
              w1 = burst gaps (checkChanges w);
              w2 = elapse quiet w1
          in hasChanges (cardStore w1) \<and>
             (\<exists>h. timers w1 = [(h, now w1 + 500)] \<and> checkChangesTimer (cardStore w1) = Some h) \<and>
             recomputed w1 = recomputed w \<and>
             recomputed w2 = Suc (recomputed w) \<and>
             hasChanges (cardStore w2) = (\<not> deepEqual (data (cardStore w1)) (originalData (cardStore w1))) \<and>
             data (cardStore w2) = data (cardStore w1) \<and>
             timers w2 = [] \<and> checkChangesTimer (cardStore w2) = None"
    unfolding Let_def w_def [symmetric] w1_def [symmetric] late
    using h dirty r by (simp add: timer_callback_def)
qed

theorem debounced_dirty_flag_witness:
  "list_all (\<lambda>p. fst p < 500)
     [(120 :: nat, Obj [(''name'', Str ''Ab'')]), (499, Obj [(''name'', Str ''Abc'')])] \<and>
   (500 :: nat) \<le> 500 \<and>
   hasChanges (cardStore (checkChanges (world0 never Null))) \<and>
   (let w = fold happen [Call, Wait 700, Edit (Obj [(''name'', Str ''A'')])]
              (world0 never (Obj [(''name'', Str [])]));
        w1 = burst [(120 :: nat, Obj [(''name'', Str ''Ab'')]), (499, Obj [(''name'', Str ''Abc'')])]
               (checkChanges w);
        w2 = elapse 500 w1
    in hasChanges (cardStore w1) \<and>
       (\<exists>h. timers w1 = [(h, now w1 + 500)] \<and> checkChangesTimer (cardStore w1) = Some h) \<and>
       recomputed w1 = recomputed w \<and>
       recomputed w2 = Suc (recomputed w) \<and>
       hasChanges (cardStore w2) = (\<not> deepEqual (data (cardStore w1)) (originalData (cardStore w1))) \<and>
       data (cardStore w2) = data (cardStore w1) \<and>
       timers w2 = [] \<and> checkChangesTimer (cardStore w2) = None)"
proof -
  have a: "list_all (\<lambda>p. fst p < 500)
     [(120 :: nat, Obj [(''name'', Str ''Ab'')]), (499, Obj [(''name'', Str ''Abc'')])]"
    by simp
  have b: "(500 :: nat) \<le> 500" by simp
  from debounced_dirty_flag [OF a b] a b show ?thesis by blast
qed

subsection \<open>Snapshots in the heap\<close>

lemma agree_refl: "hi \<le> length h \<Longrightarrow> agree lo hi h h"
  by (simp add: agree_def)

lemma agree_trans: "agree lo hi h h1 \<Longrightarrow> agree lo hi h1 h2 \<Longrightarrow> agree lo hi h h2"
  by (simp add: agree_def)

lemma agree_sub: "agree lo hi h h' \<Longrightarrow> lo \<le> lo' \<Longrightarrow> hi' \<le> hi \<Longrightarrow> agree lo' hi' h h'"
  by (simp add: agree_def)

lemma abs_agree:
  "agree 0 (length h) h h' \<Longrightarrow> abs_val n h v = Some d \<Longrightarrow> abs_val n h' v = Some d"
  "agree 0 (length h) h h' \<Longrightarrow> abs_props n h ps = Some ds \<Longrightarrow> abs_props n h' ps = Some ds"
proof (induction n h v and n h ps arbitrary: d and ds rule: abs_val_abs_props.induct)
  case (7 n h a)
  from 7(4,5) have a: "a < length h" "a < length h'" "h' ! a = h ! a"
    by (auto simp: agree_def split: if_splits)
  show ?case
  proof (cases "h ! a")
    case (ObjCell ps)
    with 7(5) a obtain ds where ds: "abs_props n h ps = Some ds" "d = Obj ds" by auto
    from 7(1) [OF a(1) ObjCell 7(4) ds(1)] ds(2) a ObjCell show ?thesis by simp
  next
    case (ReparentedCell ps)
    with 7(5) a obtain ds where ds: "abs_props n h ps = Some ds" "d = Reparented ds" by auto
    from 7(2) [OF a(1) ReparentedCell 7(4) ds(1)] ds(2) a ReparentedCell show ?thesis by simp
  next
    case (ArrCell len ps)
    with 7(5) a obtain ds where ds: "abs_props n h ps = Some ds" "d = Arr len ds" by auto
    from 7(3) [OF a(1) ArrCell 7(4) ds(1)] ds(2) a ArrCell show ?thesis by simp
  qed
next
  case (9 n h p ps)
  from 9(4) obtain d1 ds1 where d: "abs_val n h (snd p) = Some d1" "abs_props n h ps = Some ds1"
    "ds = (fst p, d1) # ds1"
    by (auto split: option.splits)
  from 9(1) [OF 9(3) d(1)] 9(2) [OF d(1) 9(3) d(2)] d(3) show ?case by simp
qed simp_all

lemma confined_abs: "confined lo hi n h v d \<Longrightarrow> hi \<le> length h \<Longrightarrow> abs_val n h v = Some d"
  by (simp add: confined_def agree_refl)

lemma confined_transfer:
  assumes "confined lo hi n h v d" and "agree lo hi h h2" and "lo' \<le> lo" and "hi \<le> hi'"
  shows "confined lo' hi' n h2 v d"
  unfolding confined_def
proof (intro allI impI)
  fix h3
  assume "agree lo' hi' h2 h3"
  with assms(2-4) have "agree lo hi h h3" by (auto simp: agree_def)
  with assms(1) show "abs_val n h3 v = Some d" by (simp add: confined_def)
qed

lemma abs_props_keys: "abs_props n h ps = Some ds \<Longrightarrow> map fst ds = map fst ps"
  by (induction ps arbitrary: ds) (auto split: option.splits)

lemma abs_props_lookup:
  "abs_props n h ps = Some ds \<Longrightarrow> k \<in> set (map fst ps) \<Longrightarrow>
   abs_val n h (rlookup ps k) = Some (lookup ds k)"
proof (induction ps arbitrary: ds)
  case Nil
  then show ?case by simp
next
  case (Cons p ps)
  from Cons.prems(1) obtain d1 ds1 where d: "abs_val n h (snd p) = Some d1"
    "abs_props n h ps = Some ds1" "ds = (fst p, d1) # ds1"
    by (auto split: option.splits)
  show ?case
  proof (cases "fst p = k")
    case True
    with d show ?thesis by (cases p) (simp add: rlookup_def lookup_def)
  next
    case False
    with Cons.prems(2) have "k \<in> set (map fst ps)" by auto
    from Cons.IH [OF d(2) this] False d(3) show ?thesis
      by (cases p) (simp add: rlookup_def lookup_def)
  qed
qed

lemma abs_props_snoc:
  "abs_props n h ps = Some ds \<Longrightarrow> abs_val n h x = Some d \<Longrightarrow>
   abs_props n h (ps @ [(k, x)]) = Some (ds @ [(k, d)])"
  by (induction ps arbitrary: ds) (auto split: option.splits)

lemma update_fresh: "k \<notin> set (map fst acc) \<Longrightarrow> AList.update k x acc = acc @ [(k, x)]"
  by (induction acc) auto

lemma clone_keys_loop:
  fixes mk :: "(string \<times> ref_val) list \<Rightarrow> cell"
  assumes IH: "clones_well sc m"
    and src: "\<And>h' k. agree 0 (length h0) h0 h' \<Longrightarrow> k \<in> set ks \<Longrightarrow> h_prop h' obj k = rlookup ps k"
    and mk: "\<And>k x acc. k \<in> set ks \<Longrightarrow> define_in (mk acc) k x = mk (AList.update k x acc)"
    and ps: "abs_props m h0 ps = Some dps"
    and js: "\<And>k. k \<in> set ks \<Longrightarrow> document (lookup dps k)"
    and sub: "set ks \<subseteq> set (map fst ps)"
    and cur: "agree 0 (length h0) h0 h" "length h0 < length h" "h ! length h0 = mk acc"
    and acc: "\<And>h'. agree (Suc (length h0)) (length h) h h' \<Longrightarrow> abs_props m h' acc = Some dacc"
    and dist: "distinct (map fst acc @ ks)"
  shows "\<exists>h' accF. clone_keys sc m h obj (length h0) ks = Some h' \<and> length h \<le> length h' \<and>
           agree 0 (length h0) h0 h' \<and> h' ! length h0 = mk accF \<and>
           (\<forall>h''. agree (Suc (length h0)) (length h') h' h'' \<longrightarrow>
              abs_props m h'' accF = Some (dacc @ map (\<lambda>k. (k, lookup dps k)) ks))"
  using src mk js sub cur acc dist
proof (induction ks arbitrary: h acc dacc)
  case Nil
  then show ?case by auto
next
  case (Cons k ks)
  define L where "L = length h0"
  note cur = Cons.prems(5-7) [folded L_def]
  have item: "h_prop h obj k = rlookup ps k"
    by (rule Cons.prems(1) [OF Cons.prems(5)]) simp
  from Cons.prems(4) have kin: "k \<in> set (map fst ps)" by simp
  have "abs_val m h0 (rlookup ps k) = Some (lookup dps k)"
    by (rule abs_props_lookup [OF ps kin])
  then have "abs_val m h (rlookup ps k) = Some (lookup dps k)"
    by (rule abs_agree(1) [OF Cons.prems(5)])
  moreover have "document (lookup dps k)" by (rule Cons.prems(3)) simp
  ultimately obtain h1 c where
    c: "deepClone_h sc m h (rlookup ps k) = Some (h1, c)" and
    len1: "length h \<le> length h1" and
    ag1: "agree 0 (length h) h h1" and
    conf1: "confined (length h) (length h1) m h1 c (lookup dps k)"
    using IH unfolding clones_well_def by blast
  define h2 where "h2 = h_define h1 L k c"
  from cur(2) len1 have L1: "L < length h1" by simp
  from ag1 cur(2) have "h1 ! L = h ! L" by (simp add: agree_def)
  with cur(3) have h1L: "h1 ! L = mk acc" by simp
  from Cons.prems(9) have fresh: "k \<notin> set (map fst acc)" by auto
  have h2: "h2 = h1[L := mk (acc @ [(k, c)])]"
    unfolding h2_def h_define_def using L1 h1L Cons.prems(2) [of k acc c] update_fresh [OF fresh]
    by simp
  have step: "clone_keys sc m h obj L (k # ks) = clone_keys sc m h2 obj L ks"
    by (simp add: item c h2_def)
  have len2: "length h2 = length h1" by (simp add: h2)
  have ag2: "agree 0 L h0 h2"
    using cur(1) ag1 cur(2) len1 unfolding agree_def h2 by auto
  have L2: "L < length h2" using L1 len2 by simp
  have h2L: "h2 ! L = mk (acc @ [(k, c)])" using L1 by (simp add: h2)
  have acc2: "abs_props m h' (acc @ [(k, c)]) = Some ((dacc @ [(k, lookup dps k)]))"
    if a: "agree (Suc L) (length h2) h2 h'" for h'
  proof -
    from a len1 len2 have "agree (Suc L) (length h) h h'"
      using ag1 unfolding agree_def h2 by auto
    then have 1: "abs_props m h' acc = Some dacc"
      by (rule Cons.prems(8) [folded L_def])
    from a cur(2) len1 len2 have "agree (length h) (length h1) h1 h'"
      unfolding agree_def h2 by auto
    with conf1 have 2: "abs_val m h' c = Some (lookup dps k)"
      by (simp add: confined_def)
    from abs_props_snoc [OF 1 2] show ?thesis .
  qed
  from Cons.prems(9) have dist2: "distinct (map fst (acc @ [(k, c)]) @ ks)" by auto
  have "\<exists>h' accF. clone_keys sc m h2 obj (length h0) ks = Some h' \<and> length h2 \<le> length h' \<and>
           agree 0 (length h0) h0 h' \<and> h' ! length h0 = mk accF \<and>
           (\<forall>h''. agree (Suc (length h0)) (length h') h' h'' \<longrightarrow>
              abs_props m h'' accF = Some ((dacc @ [(k, lookup dps k)]) @ map (\<lambda>k. (k, lookup dps k)) ks))"
  proof (rule Cons.IH)
    show "\<And>h' k. agree 0 (length h0) h0 h' \<Longrightarrow> k \<in> set ks \<Longrightarrow> h_prop h' obj k = rlookup ps k"
      using Cons.prems(1) by simp
    show "\<And>k x acc. k \<in> set ks \<Longrightarrow> define_in (mk acc) k x = mk (AList.update k x acc)"
      using Cons.prems(2) by simp
    show "\<And>k. k \<in> set ks \<Longrightarrow> document (lookup dps k)"
      using Cons.prems(3) by simp
    show "set ks \<subseteq> set (map fst ps)" using Cons.prems(4) by simp
    show "agree 0 (length h0) h0 h2" using ag2 by (simp add: L_def)
    show "length h0 < length h2" using L2 by (simp add: L_def)
    show "h2 ! length h0 = mk (acc @ [(k, c)])" using h2L by (simp add: L_def)
    show "\<And>h'. agree (Suc (length h0)) (length h2) h2 h' \<Longrightarrow>
            abs_props m h' (acc @ [(k, c)]) = Some (dacc @ [(k, lookup dps k)])"
      using acc2 by (simp add: L_def)
    show "distinct (map fst (acc @ [(k, c)]) @ ks)" by (rule dist2)
  qed
  then show ?case
    unfolding step [unfolded L_def] using len1 len2 by auto
qed

lemma abs_val_prim:
  assumes "v = RNull \<or> typeof_h v \<noteq> ''object''"
  shows "abs_val n h v = abs_val n' h' v"
  using assms by (cases v) auto

lemma lookup_all: "distinct (map fst ds) \<Longrightarrow> map (\<lambda>k. (k, lookup ds k)) (map fst ds) = ds"
proof -
  assume d: "distinct (map fst ds)"
  have "(fst p, lookup ds (fst p)) = p" if "p \<in> set ds" for p
    using lookup_distinct [OF d that] by simp
  then show ?thesis by (simp add: o_def map_idI)
qed

lemma json_like_child:
  assumes "distinct (map fst ds)" and "list_all (\<lambda>p. json_like (snd p)) ds" and "k \<in> set (map fst ds)"
  shows "json_like (lookup ds k)"
proof -
  from assms(3) have "(k, lookup ds k) \<in> set ds" by (rule lookup_member)
  with assms(2) show ?thesis by (auto simp: list_all_iff)
qed

lemma document_child:
  assumes "list_all (\<lambda>p. document (snd p)) ds" and "k \<in> set (map fst ds)"
  shows "document (lookup ds k)"
proof -
  from assms(2) have "(k, lookup ds k) \<in> set ds" by (rule lookup_member)
  with assms(1) show ?thesis by (auto simp: list_all_iff)
qed

lemma document_props:
  assumes "document d" and "d = Obj dps \<or> d = Arr len dps"
  shows "distinct (map fst dps)" and "list_all (\<lambda>p. document (snd p)) dps"
proof -
  from assms show "distinct (map fst dps)" by (auto simp: document_def)
  have "document (snd p)" if "p \<in> set dps" for p
  proof -
    from assms that have "json_like (snd p)" "proto_free (snd p)"
      by (auto simp: document_def list_all_iff)
    then show ?thesis by (simp add: document_def)
  qed
  then show "list_all (\<lambda>p. document (snd p)) dps" by (simp add: list_all_iff)
qed

lemma clone_cell:
  fixes mk :: "(string \<times> ref_val) list \<Rightarrow> cell"
  assumes IH: "clones_well sc m"
    and src: "\<And>h' k. agree 0 (length h) h h' \<Longrightarrow> k \<in> set (map fst ps) \<Longrightarrow>
                h_prop h' (Ref a) k = rlookup ps k"
    and mk: "\<And>k x acc. k \<in> set (map fst ps) \<Longrightarrow> define_in (mk acc) k x = mk (AList.update k x acc)"
    and ps: "abs_props m h ps = Some dps"
    and js: "distinct (map fst dps)" "list_all (\<lambda>p. document (snd p)) dps"
  shows "\<exists>h'. clone_keys sc m (h @ [mk []]) (Ref a) (length h) (map fst ps) = Some h' \<and>
           length h < length h' \<and> agree 0 (length h) h h' \<and>
           (\<forall>h''. agree (length h) (length h') h' h'' \<longrightarrow>
              length h < length h'' \<and> (\<exists>accF. h'' ! length h = mk accF \<and> abs_props m h'' accF = Some dps))"
proof -
  have keys: "map fst dps = map fst ps" by (rule abs_props_keys [OF ps])
  have "\<exists>h' accF. clone_keys sc m (h @ [mk []]) (Ref a) (length h) (map fst ps) = Some h' \<and>
           length (h @ [mk []]) \<le> length h' \<and>
           agree 0 (length h) h h' \<and> h' ! length h = mk accF \<and>
           (\<forall>h''. agree (Suc (length h)) (length h') h' h'' \<longrightarrow>
              abs_props m h'' accF = Some ([] @ map (\<lambda>k. (k, lookup dps k)) (map fst ps)))"
  proof (rule clone_keys_loop [OF IH _ _ ps])
    show "\<And>h' k. agree 0 (length h) h h' \<Longrightarrow> k \<in> set (map fst ps) \<Longrightarrow>
            h_prop h' (Ref a) k = rlookup ps k"
      by (rule src)
    show "\<And>k x acc. k \<in> set (map fst ps) \<Longrightarrow> define_in (mk acc) k x = mk (AList.update k x acc)"
      by (rule mk)
    show "\<And>k. k \<in> set (map fst ps) \<Longrightarrow> document (lookup dps k)"
      using document_child [OF js(2)] keys by simp
    show "set (map fst ps) \<subseteq> set (map fst ps)" by simp
    show "agree 0 (length h) h (h @ [mk []])" by (simp add: agree_def nth_append)
    show "length h < length (h @ [mk []])" by simp
    show "(h @ [mk []]) ! length h = mk []" by simp
    show "\<And>h'. agree (Suc (length h)) (length (h @ [mk []])) (h @ [mk []]) h' \<Longrightarrow>
            abs_props m h' [] = Some []"
      by simp
    show "distinct (map fst [] @ map fst ps)" using js(1) keys by simp
  qed
  then obtain h' accF where r: "clone_keys sc m (h @ [mk []]) (Ref a) (length h) (map fst ps) = Some h'"
    "length (h @ [mk []]) \<le> length h'" "agree 0 (length h) h h'" "h' ! length h = mk accF"
    "\<And>h''. agree (Suc (length h)) (length h') h' h'' \<Longrightarrow>
        abs_props m h'' accF = Some (map (\<lambda>k. (k, lookup dps k)) (map fst ps))"
    by auto
  have all: "map (\<lambda>k. (k, lookup dps k)) (map fst ps) = dps"
    using lookup_all [OF js(1)] keys by simp
  have "length h < length h'' \<and> (\<exists>accF. h'' ! length h = mk accF \<and> abs_props m h'' accF = Some dps)"
    if ag: "agree (length h) (length h') h' h''" for h''
  proof -
    from ag r(2) have "length h < length h''" "h'' ! length h = h' ! length h"
      by (auto simp: agree_def)
    moreover from ag have "agree (Suc (length h)) (length h') h' h''"
      by (rule agree_sub) simp_all
    ultimately show ?thesis using r(4) r(5) all by auto
  qed
  with r(1-3) show ?thesis by auto
qed

lemma is_element_index:
  "is_element len p \<Longrightarrow> \<exists>i. array_index (fst p) = Some i \<and> i < len"
  by (auto simp: is_element_def split: option.splits)

lemma deepClone_h_correct:
  assumes "cloner_contract sc"
  shows "clones_well sc n"
proof (induction n)
  case 0
  show ?case
    unfolding clones_well_def
  proof (intro allI impI)
    fix h v d
    assume a: "abs_val 0 h v = Some d \<and> document d"
    show "\<exists>h' v'. deepClone_h sc 0 h v = Some (h', v') \<and> length h \<le> length h' \<and>
           agree 0 (length h) h h' \<and> confined (length h) (length h') 0 h' v' d"
    proof (cases "sc h v")
      case (Some r)
      obtain h' v' where r: "r = (h', v')" by (cases r)
      with assms a Some show ?thesis unfolding cloner_contract_def by auto
    next
      case None
      from a have prim: "v = RNull \<or> typeof_h v \<noteq> ''object''" by (cases v) auto
      with a have "confined (length h) (length h) 0 h v d"
        unfolding confined_def using abs_val_prim [OF prim] by metis
      with None prim show ?thesis by (auto simp: agree_refl)
    qed
  qed
next
  case (Suc m)
  show ?case
    unfolding clones_well_def
  proof (intro allI impI)
    fix h v d
    assume a: "abs_val (Suc m) h v = Some d \<and> document d"
    show "\<exists>h' v'. deepClone_h sc (Suc m) h v = Some (h', v') \<and> length h \<le> length h' \<and>
           agree 0 (length h) h h' \<and> confined (length h) (length h') (Suc m) h' v' d"
    proof (cases "sc h v")
      case (Some r)
      obtain h' v' where r: "r = (h', v')" by (cases r)
      with assms a Some show ?thesis unfolding cloner_contract_def by auto
    next
      case None
      show ?thesis
      proof (cases "v = RNull \<or> typeof_h v \<noteq> ''object''")
        case True
        with a have "confined (length h) (length h) (Suc m) h v d"
          unfolding confined_def using abs_val_prim [OF True] by metis
        with None True show ?thesis by (auto simp: agree_refl)
      next
        case False
        then obtain x where v: "v = Ref x" by (cases v) auto
        with a have x: "x < length h" by (auto split: if_splits)
        show ?thesis
        proof (cases "h ! x")
          case (ObjCell ps)
          with a v x obtain dps where dps: "abs_props m h ps = Some dps" "d = Obj dps"
            by auto
          with a have js: "distinct (map fst dps)" "list_all (\<lambda>p. document (snd p)) dps"
            using document_props [of d dps] by simp_all
          have src: "h_prop h' (Ref x) k = rlookup ps k"
            if "agree 0 (length h) h h'" "k \<in> set (map fst ps)" for h' k
            using that(1) x ObjCell by (simp add: h_prop_def agree_def)
          from a dps have "''__proto__'' \<notin> set (map fst dps)"
            by (simp add: document_def)
          then have np: "''__proto__'' \<notin> set (map fst ps)"
            using abs_props_keys [OF dps(1)] by simp
          have mk: "define_in (ObjCell acc) k y = ObjCell (AList.update k y acc)"
            if "k \<in> set (map fst ps)" for k y acc
          proof -
            from that np have "k \<noteq> ''__proto__''" by metis
            then show ?thesis by simp
          qed
          from clone_cell [where mk = ObjCell, OF Suc src mk dps(1) js]
          obtain h' where h': "clone_keys sc m (h @ [ObjCell []]) (Ref x) (length h) (map fst ps) = Some h'"
            "length h < length h'" "agree 0 (length h) h h'"
            "\<And>h''. agree (length h) (length h') h' h'' \<Longrightarrow>
               length h < length h'' \<and>
               (\<exists>accF. h'' ! length h = ObjCell accF \<and> abs_props m h'' accF = Some dps)"
            by auto
          have "confined (length h) (length h') (Suc m) h' (Ref (length h)) d"
            unfolding confined_def
          proof (intro allI impI)
            fix h''
            assume "agree (length h) (length h') h' h''"
            from h'(4) [OF this] obtain accF where "length h < length h''"
              "h'' ! length h = ObjCell accF" "abs_props m h'' accF = Some dps"
              by blast
            with dps(2) show "abs_val (Suc m) h'' (Ref (length h)) = Some d" by simp
          qed
          moreover have "deepClone_h sc (Suc m) h v = Some (h', Ref (length h))"
            using None v x ObjCell h'(1) by (simp add: isArray_h_def keys_h_def alloc_def)
          ultimately show ?thesis using h'(2,3) by auto
        next
          case (ReparentedCell ps)
          with a v x show ?thesis by (auto simp: document_def)
        next
          case (ArrCell len ps)
          with a v x obtain dps where dps: "abs_props m h ps = Some dps" "d = Arr len dps"
            by auto
          with a have js: "distinct (map fst dps)" "list_all (\<lambda>p. document (snd p)) dps"
            and el: "list_all (is_element len) dps"
            using document_props [of d dps] by (simp_all add: document_def list_all_iff)
          have keys: "map fst dps = map fst ps" by (rule abs_props_keys [OF dps(1)])
          have idx: "\<exists>i. array_index k = Some i \<and> i < len" if "k \<in> set (map fst ps)" for k
          proof -
            from that keys have "k \<in> fst ` set dps" by (metis set_map)
            then obtain p where "p \<in> set dps" "fst p = k" by auto
            with el is_element_index [of len p] show ?thesis by (auto simp: list_all_iff)
          qed
          have src: "h_prop h' (Ref x) k = rlookup ps k"
            if "agree 0 (length h) h h'" "k \<in> set (map fst ps)" for h' k
          proof -
            from idx [OF that(2)] have "k \<noteq> ''length''" by auto
            with that(1) x ArrCell show ?thesis by (simp add: h_prop_def agree_def)
          qed
          have mk: "define_in (ArrCell len acc) k y = ArrCell len (AList.update k y acc)"
            if "k \<in> set (map fst ps)" for k y acc
            using idx [OF that] by (auto simp: max_def)
          have ek: "element_keys h v = map fst ps"
          proof -
            have "filter (\<lambda>k. case array_index k of Some i \<Rightarrow> i < len | None \<Rightarrow> False) (map fst ps)
                  = map fst ps"
            proof (intro filter_True ballI)
              fix k
              assume "k \<in> set (map fst ps)"
              from idx [OF this] show "case array_index k of Some i \<Rightarrow> i < len | None \<Rightarrow> False"
                by auto
            qed
            with v x ArrCell show ?thesis by (simp add: element_keys_def)
          qed
          from clone_cell [where mk = "ArrCell len", OF Suc src mk dps(1) js]
          obtain h' where h': "clone_keys sc m (h @ [ArrCell len []]) (Ref x) (length h) (map fst ps) = Some h'"
            "length h < length h'" "agree 0 (length h) h h'"
            "\<And>h''. agree (length h) (length h') h' h'' \<Longrightarrow>
               length h < length h'' \<and>
               (\<exists>accF. h'' ! length h = ArrCell len accF \<and> abs_props m h'' accF = Some dps)"
            by auto
          have "confined (length h) (length h') (Suc m) h' (Ref (length h)) d"
            unfolding confined_def
          proof (intro allI impI)
            fix h''
            assume "agree (length h) (length h') h' h''"
            from h'(4) [OF this] obtain accF where "length h < length h''"
              "h'' ! length h = ArrCell len accF" "abs_props m h'' accF = Some dps"
              by blast
            with dps(2) show "abs_val (Suc m) h'' (Ref (length h)) = Some d" by simp
          qed
          moreover have "deepClone_h sc (Suc m) h v = Some (h', Ref (length h))"
            using None v x ArrCell h'(1) ek
            by (simp add: isArray_h_def array_length_def alloc_def)
          ultimately show ?thesis using h'(2,3) by auto
        qed
      qed
    qed
  qed
qed

lemma keys_equal_all:
  assumes "\<And>key. key \<in> set ks \<Longrightarrow>
             key \<in> set keysB \<and> deepEqual_h m h (h_prop h a key) (h_prop h b key) = Some True"
  shows "keys_equal m h a b keysB ks = Some True"
  using assms by (induction ks) auto

lemma abs_val_object:
  assumes "abs_val n h v = Some d" and "is_object d"
  shows "\<exists>x m. v = Ref x \<and> n = Suc m \<and> x < length h"
proof -
  from assms obtain x where v: "v = Ref x" by (cases v) (auto simp: is_object_def)
  with assms(1) obtain m where "n = Suc m" by (cases n) auto
  with assms(1) v show ?thesis by (auto split: if_splits)
qed

lemma abs_val_primitive:
  assumes "abs_val n h a = Some d" and "abs_val n h b = Some d" and "\<not> is_object d"
  shows "a = b"
proof -
  have p: "\<exists>w. v = w \<and> (\<forall>x. w \<noteq> Ref x)" if "abs_val n h v = Some d" for v
  proof (cases v)
    case (Ref x)
    with that assms(3) show ?thesis
      by (cases n) (auto simp: is_object_def split: if_splits cell.splits)
  qed auto
  from p [OF assms(1)] p [OF assms(2)] assms(1,2) show ?thesis
    by (cases a; cases b) auto
qed

lemma deepEqual_h_same:
  "abs_val n h a = Some d \<Longrightarrow> abs_val n h b = Some d \<Longrightarrow> json_like d \<Longrightarrow>
   deepEqual_h n h a b = Some True"
proof (induction n arbitrary: a b d)
  case 0
  then have "\<not> is_object d" using abs_val_object by blast
  from abs_val_primitive [OF 0(1) 0(2) this] show ?case
    by (simp add: deepEqual_h.simps)
next
  case (Suc m)
  show ?case
  proof (cases "is_object d")
    case False
    from abs_val_primitive [OF Suc.prems(1) Suc.prems(2) this] show ?thesis
      by (simp add: deepEqual_h.simps)
  next
    case True
    from abs_val_object [OF Suc.prems(1) True] abs_val_object [OF Suc.prems(2) True]
    obtain x y where r: "a = Ref x" "b = Ref y" "x < length h" "y < length h"
      by auto
    define psa where
      "psa = (case h ! x of ObjCell ps \<Rightarrow> ps | ReparentedCell ps \<Rightarrow> ps | ArrCell len ps \<Rightarrow> ps)"
    define psb where
      "psb = (case h ! y of ObjCell ps \<Rightarrow> ps | ReparentedCell ps \<Rightarrow> ps | ArrCell len ps \<Rightarrow> ps)"
    from True Suc.prems(3) obtain dps where d: "(d = Obj dps \<or> (\<exists>len. d = Arr len dps))"
      by (auto simp: is_object_cases)
    have pa: "abs_props m h psa = Some dps" and pb: "abs_props m h psb = Some dps"
      and arr: "isArray_h h a = isArray_h h b"
      using Suc.prems(1,2) r d
      by (auto simp: psa_def psb_def isArray_h_def split: cell.splits)
    have ka: "keys_h h a = map fst dps" and kb: "keys_h h b = map fst dps"
      using abs_props_keys [OF pa] abs_props_keys [OF pb] r
      by (auto simp: keys_h_def psa_def psb_def split: cell.splits)
    have js1: "distinct (map fst dps)" using Suc.prems(3) d by auto
    have js2: "list_all (\<lambda>p. json_like (snd p)) dps"
    proof -
      from d show ?thesis
      proof
        assume "d = Obj dps"
        with Suc.prems(3) show ?thesis by simp
      next
        assume "\<exists>len. d = Arr len dps"
        then obtain len where "d = Arr len dps" by blast
        with Suc.prems(3) have "list_all (\<lambda>p. is_element len p \<and> json_like (snd p)) dps"
          by simp
        then show ?thesis by (simp add: list_all_iff)
      qed
    qed
    note js = js1 js2
    have notlen: "key \<noteq> ''length''" if "key \<in> set (map fst dps)" "isArray_h h a" for key
    proof -
      from that(2) r Suc.prems(1) d obtain len where "d = Arr len dps"
        by (auto simp: isArray_h_def split: cell.splits if_splits)
      with Suc.prems(3) have "list_all (is_element len) dps" by (simp add: list_all_iff)
      moreover from that(1) obtain p where "p \<in> set dps" "fst p = key" by auto
      ultimately have "is_element len p" "fst p = key" by (auto simp: list_all_iff)
      with is_element_not_length [of len p] show ?thesis by simp
    qed
    have each: "key \<in> set (keys_h h b) \<and>
        deepEqual_h m h (h_prop h a key) (h_prop h b key) = Some True"
      if key: "key \<in> set (keys_h h a)" for key
    proof -
      from key ka have k: "key \<in> set (map fst dps)" by simp
      have ha: "h_prop h a key = rlookup psa key"
        using r notlen [OF k] by (auto simp: h_prop_def psa_def isArray_h_def split: cell.splits)
      have hb: "h_prop h b key = rlookup psb key"
        using r notlen [OF k] arr by (auto simp: h_prop_def psb_def isArray_h_def split: cell.splits)
      from k abs_props_keys [OF pa] abs_props_keys [OF pb]
      have "key \<in> set (map fst psa)" "key \<in> set (map fst psb)" by simp_all
      from abs_props_lookup [OF pa this(1)] abs_props_lookup [OF pb this(2)]
        json_like_child [OF js k]
      have "deepEqual_h m h (rlookup psa key) (rlookup psb key) = Some True"
        by (rule Suc.IH)
      with k kb ha hb show ?thesis by simp
    qed
    show ?thesis
    proof (cases "a = b")
      case True
      then show ?thesis by (simp add: deepEqual_h.simps)
    next
      case False
      with r arr ka kb keys_equal_all [of "keys_h h a" "keys_h h b" m h a b, OF each]
      show ?thesis by (simp add: deepEqual_h.simps)
    qed
  qed
qed

lemma cloner_contract_none: "cloner_contract no_structuredClone"
  by (simp add: cloner_contract_def no_structuredClone_def)

text \<open>
  Let a value of the heap stand for a JSON-like document \<open>d\<close> with no property named
  \<^verbatim>\<open>__proto__\<close>. Then \<^verbatim>\<open>deepClone\<close> returns, \<^verbatim>\<open>deepEqual\<close> of the value and its clone is
  \<^verbatim>\<open>true\<close>, and both stand for \<open>d\<close> afterwards. They share nothing: the original stands
  for \<open>d\<close> in every heap that agrees with the new one on the addresses that existed
  before the call, and the clone stands for \<open>d\<close> in every heap that agrees with the new
  one on the addresses allocated by the call. So an assignment to a property of any
  object allocated by the call, those of the clone among them, leaves the original as it
  is, and an assignment to a property of any object that existed before, those of the
  original among them, leaves the clone as it is.
\<close>

lemma clone_of_document:
  assumes "cloner_contract sc" and "abs_val n h v = Some d" and "json_like d" and "proto_free d"
  shows "\<exists>h' v'. deepClone_h sc n h v = Some (h', v') \<and>
           deepEqual_h n h' v v' = Some True \<and>
           abs_val n h' v = Some d \<and> abs_val n h' v' = Some d \<and>
           (\<forall>h''. agree 0 (length h) h' h'' \<longrightarrow> abs_val n h'' v = Some d) \<and>
           (\<forall>h''. agree (length h) (length h') h' h'' \<longrightarrow> abs_val n h'' v' = Some d) \<and>
           (\<forall>a k x. length h \<le> a \<longrightarrow> abs_val n (h_define h' a k x) v = Some d) \<and>
           (\<forall>a k x. a < length h \<longrightarrow> abs_val n (h_define h' a k x) v' = Some d)"
proof -
  from assms(3,4) have doc: "document d" by (simp add: document_def)
  from deepClone_h_correct [OF assms(1), of n] assms(2) doc
  obtain h' v' where c: "deepClone_h sc n h v = Some (h', v')" "length h \<le> length h'"
    "agree 0 (length h) h h'" "confined (length h) (length h') n h' v' d"
    unfolding clones_well_def by blast
  have orig: "abs_val n h'' v = Some d" if "agree 0 (length h) h' h''" for h''
    using abs_agree(1) [OF agree_trans [OF c(3) that] assms(2)] .
  have copy: "abs_val n h'' v' = Some d" if "agree (length h) (length h') h' h''" for h''
    using c(4) that by (simp add: confined_def)
  have o: "abs_val n h' v = Some d" by (rule abs_agree(1) [OF c(3) assms(2)])
  have k: "abs_val n h' v' = Some d" by (rule confined_abs [OF c(4)]) simp
  have "deepEqual_h n h' v v' = Some True" by (rule deepEqual_h_same [OF o k assms(3)])
  moreover have "abs_val n (h_define h' a k x) v = Some d" if "length h \<le> a" for a k x
    using that c(2) by (intro orig) (simp add: agree_def h_define_def)
  moreover have "abs_val n (h_define h' a k x) v' = Some d" if "a < length h" for a k x
    using that c(2) by (intro copy) (simp add: agree_def h_define_def)
  ultimately show ?thesis using c(1) o k orig copy by blast
qed

text \<open>
  The hand-written copy on the heap, for the object that \<^verbatim>\<open>JSON.parse\<close> makes of
  \<^verbatim>\<open>{"__proto__": 5}\<close>: the copy is a new object with no property, and \<^verbatim>\<open>deepEqual\<close> tells
  it from the original.
\<close>

lemma clone_of_proto_h:
  "deepClone_h no_structuredClone 1 [ObjCell [(''__proto__'', RNum 5)]] (Ref 0)
     = Some ([ObjCell [(''__proto__'', RNum 5)], ObjCell []], Ref 1) \<and>
   deepEqual_h 1 [ObjCell [(''__proto__'', RNum 5)], ObjCell []] (Ref 0) (Ref 1) = Some False"
  by code_simp

text \<open>
  C7. The claim fails for a JSON-like document with a property named \<^verbatim>\<open>__proto__\<close>: for
  the object \<open>d\<close> that \<^verbatim>\<open>JSON.parse\<close> makes of \<^verbatim>\<open>{"__proto__": 5}\<close>, the hand-written copy
  of \<^verbatim>\<open>deepClone\<close> is \<^verbatim>\<open>{}\<close>, and \<^verbatim>\<open>deepEqual(d, deepClone(d))\<close> is \<^verbatim>\<open>false\<close>. When the value
  of the property is an object, the copy has that for its prototype. The copy that
  \<^verbatim>\<open>structuredClone\<close> makes keeps the property in both cases.
\<close>

theorem clone_loses_proto:
  "let d = Obj [(''__proto__'', Num 5)];
       d' = Obj [(''name'', Str ''A''), (''__proto__'', Obj [(''admin'', Bool True)])]
   in json_like d \<and> json_like d' \<and>
      deepClone never [] d = Obj [] \<and> \<not> deepEqual d (deepClone never [] d) \<and>
      deepClone never [] d' = Reparented [(''name'', Str ''A'')] \<and>
      \<not> deepEqual d' (deepClone never [] d') \<and>
      deepClone always [] d = d \<and> deepEqual d (deepClone always [] d) \<and>
      deepClone always [] d' = d' \<and> deepEqual d' (deepClone always [] d')"
  by code_simp

end
